theory Spec2Isabelle
  imports Main "HOL-Library.AList"
begin

section \<open>The post graph of \<^verbatim>\<open>analysis/post_graph.py\<close>\<close>

text \<open>
  The module keeps three dictionaries: the node table \<^verbatim>\<open>_nodes\<close>, the adjacency
  \<^verbatim>\<open>_adj\<close> and the inverted index \<^verbatim>\<open>_keyword_index\<close>. A Python \<^verbatim>\<open>dict\<close>
  iterates in insertion order, assigning to a key that is present keeps its place, and a
  deleted key that is stored again goes to the end. An association list with
  \<open>AList.update\<close> (replace in place, else append), \<open>AList.delete\<close> and \<open>map_of\<close>
  behaves the same way, so every dictionary is an association list.

  A Python \<^verbatim>\<open>set\<close> that the code only tests, measures and copies (the visited set of
  the traversal, the shared keywords of an edge) is a HOL set. A set the code iterates
  over (the keywords of a post, a postings list) is a duplicate-free list; Python fixes no
  iteration order for a set of strings, the model iterates in the order of insertion, and
  no statement below depends on that order.

  \<^verbatim>\<open>str.lower\<close> is a builtin of Python, not code of this module, and it is not a map
  on single characters. Every function of the model that calls it, or calls a function
  that does, takes it as its first argument \<open>lower\<close>, a function on strings, and every
  general fact below holds for every such function, hence for \<^verbatim>\<open>str.lower\<close>. A string
  stands for the bytes of its UTF-8 encoding; the graph only compares strings and hands
  them to \<open>lower\<close>.
\<close>

subsection \<open>Data\<close>

datatype py_error = KeyError

text \<open>\<^verbatim>\<open>models/post.py\<close>: the dataclass \<^verbatim>\<open>OSINTPost\<close>. The field \<^verbatim>\<open>text\<close> is named
  \<open>post_text\<close> here; \<^verbatim>\<open>date\<close> is a time stamp the graph never reads.\<close>

record OSINTPost =
  post_id :: string
  date :: int
  username :: string
  post_text :: string
  source :: string
  url :: string
  matched_keywords :: "string list"
  categories :: "string list"

record Edge =
  post_id_a :: string
  post_id_b :: string
  shared_keywords :: "string set"

definition weight :: "Edge \<Rightarrow> int" where
  "weight e = int (card (shared_keywords e))"

type_synonym neighbors = "(string \<times> Edge) list"
type_synonym adjacency = "(string \<times> neighbors) list"
type_synonym kw_index = "(string \<times> string list) list"

record PostGraph =
  min_shared_keywords :: int
  nodes :: "(string \<times> OSINTPost) list"
  adj :: adjacency
  keyword_index :: kw_index

definition new_graph :: "int \<Rightarrow> PostGraph" where
  "new_graph T = \<lparr>min_shared_keywords = T, nodes = [], adj = [], keyword_index = []\<rparr>"

subsection \<open>Dictionary and string helpers\<close>

definition has_key :: "('k \<times> 'v) list \<Rightarrow> 'k \<Rightarrow> bool" where
  "has_key d k = (k \<in> fst ` set d)"

text \<open>\<^verbatim>\<open>d.get(k, {})\<close> and \<^verbatim>\<open>d.get(k, set())\<close>: the stored value, or an empty one.\<close>

definition get_or_empty :: "('k \<times> 'v list) list \<Rightarrow> 'k \<Rightarrow> 'v list" where
  "get_or_empty d k = (case map_of d k of None \<Rightarrow> [] | Some v \<Rightarrow> v)"

text \<open>The type of \<^verbatim>\<open>str.lower\<close>, the argument \<open>lower\<close> of the functions below.\<close>

type_synonym lowering = "string \<Rightarrow> string"

text \<open>What \<^verbatim>\<open>str.lower\<close> does to a string of ASCII characters: the letters A to Z
  become a to z. The examples below use it for \<open>lower\<close>, on ASCII keywords only.\<close>

definition lower_char :: "char \<Rightarrow> char" where
  "lower_char c =
     (let n = (of_char c :: nat) in if 65 \<le> n \<and> n \<le> 90 then char_of (n + 32) else c)"

definition ascii_lower :: lowering where
  "ascii_lower s = map lower_char s"

text \<open>\<^verbatim>\<open>set(kw.lower() for kw in post.matched_keywords)\<close>\<close>

definition post_keywords :: "lowering \<Rightarrow> OSINTPost \<Rightarrow> string list" where
  "post_keywords lower post = remdups (map lower (matched_keywords post))"

subsection \<open>\<^verbatim>\<open>add_post\<close>\<close>

text \<open>\<^verbatim>\<open>candidate_counts.setdefault(other_id, set()).add(kw)\<close>\<close>

definition candidate_add ::
  "string \<Rightarrow> string \<Rightarrow> (string \<times> string set) list \<Rightarrow> (string \<times> string set) list" where
  "candidate_add kw other_id cc =
     AList.update other_id
       (insert kw (case map_of cc other_id of None \<Rightarrow> {} | Some s \<Rightarrow> s)) cc"

definition candidate_counts :: "kw_index \<Rightarrow> string list \<Rightarrow> (string \<times> string set) list" where
  "candidate_counts idx kws =
     fold (\<lambda>kw cc. fold (candidate_add kw) (get_or_empty idx kw) cc) kws []"

text \<open>The body of the loop over \<^verbatim>\<open>candidate_counts.items()\<close>. The entry
  \<^verbatim>\<open>_adj[post.post_id]\<close> is there since the \<^verbatim>\<open>setdefault\<close> that precedes the loop.\<close>

definition link_candidate ::
  "string \<Rightarrow> int \<Rightarrow> string \<times> string set \<Rightarrow> int \<times> adjacency \<Rightarrow> int \<times> adjacency" where
  "link_candidate pid T c st =
     (case c of (other_id, shared) \<Rightarrow> case st of (edges_created, a) \<Rightarrow>
        if int (card shared) \<ge> T then
          let edge = \<lparr>post_id_a = pid, post_id_b = other_id, shared_keywords = shared\<rparr>;
              a1 = AList.update pid (AList.update other_id edge (get_or_empty a pid)) a;
              a2 = AList.update other_id (AList.update pid edge (get_or_empty a1 other_id)) a1
          in (edges_created + 1, a2)
        else (edges_created, a))"

text \<open>\<^verbatim>\<open>self._keyword_index.setdefault(kw, set()).add(post.post_id)\<close>\<close>

definition index_add :: "string \<Rightarrow> string \<Rightarrow> kw_index \<Rightarrow> kw_index" where
  "index_add pid kw idx =
     (let s = get_or_empty idx kw
      in AList.update kw (if pid \<in> set s then s else s @ [pid]) idx)"

definition add_post :: "lowering \<Rightarrow> PostGraph \<Rightarrow> OSINTPost \<Rightarrow> int \<times> PostGraph" where
  "add_post lower g post =
     (if has_key (nodes g) (post_id post) then (0, g)
      else
        let nodes1 = AList.update (post_id post) post (nodes g);
            adj1 = (if has_key (adj g) (post_id post) then adj g
                    else AList.update (post_id post) [] (adj g));
            kws = post_keywords lower post;
            cc = candidate_counts (keyword_index g) kws;
            (edges_created, adj2) =
               fold (link_candidate (post_id post) (min_shared_keywords g)) cc (0, adj1);
            idx = fold (index_add (post_id post)) kws (keyword_index g)
        in (edges_created, g\<lparr>nodes := nodes1, adj := adj2, keyword_index := idx\<rparr>))"

subsection \<open>\<^verbatim>\<open>add_posts\<close>\<close>

record add_stats =
  nodes_added :: int
  edges_created :: int

fun add_posts_loop :: "lowering \<Rightarrow> PostGraph \<Rightarrow> OSINTPost list \<Rightarrow> add_stats \<Rightarrow> add_stats \<times> PostGraph" where
  "add_posts_loop lower g [] st = (st, g)"
| "add_posts_loop lower g (post # posts) st =
     (if \<not> has_key (nodes g) (post_id post) then
        (case add_post lower g post of (n, g') \<Rightarrow>
           add_posts_loop lower g' posts
             \<lparr>nodes_added = nodes_added st + 1, edges_created = edges_created st + n\<rparr>)
      else add_posts_loop lower g posts st)"

definition add_posts :: "lowering \<Rightarrow> PostGraph \<Rightarrow> OSINTPost list \<Rightarrow> add_stats \<times> PostGraph" where
  "add_posts lower g posts = add_posts_loop lower g posts \<lparr>nodes_added = 0, edges_created = 0\<rparr>"

subsection \<open>\<^verbatim>\<open>remove_post\<close>\<close>

text \<open>One round of the loop over the keywords: discard the id from the postings list and
  drop the list when it has become empty.\<close>

definition index_discard :: "string \<Rightarrow> string \<Rightarrow> kw_index \<Rightarrow> kw_index" where
  "index_discard pid kw idx =
     (case map_of idx kw of
        None \<Rightarrow> idx
      | Some s \<Rightarrow>
          (let s' = removeAll pid s
           in if s' = [] then AList.delete kw idx else AList.update kw s' idx))"

text \<open>\<^verbatim>\<open>self._adj[neighbor_id].pop(post_id, None)\<close> for each neighbour; the subscript
  raises \<^verbatim>\<open>KeyError\<close> when the neighbour has no adjacency entry.\<close>

fun unlink_neighbors :: "string \<Rightarrow> string list \<Rightarrow> adjacency \<Rightarrow> py_error + adjacency" where
  "unlink_neighbors pid [] a = Inr a"
| "unlink_neighbors pid (neighbor_id # rest) a =
     (case map_of a neighbor_id of
        None \<Rightarrow> Inl KeyError
      | Some m \<Rightarrow> unlink_neighbors pid rest (AList.update neighbor_id (AList.delete pid m) a))"

text \<open>The result is the error when the call raises; the partly updated object that the
  exception leaves behind is not modelled.\<close>

definition remove_post :: "lowering \<Rightarrow> PostGraph \<Rightarrow> string \<Rightarrow> py_error + PostGraph" where
  "remove_post lower g pid =
     (case map_of (nodes g) pid of
        None \<Rightarrow> Inr g
      | Some post \<Rightarrow>
          (let idx = fold (index_discard pid) (post_keywords lower post) (keyword_index g)
           in case unlink_neighbors pid (map fst (get_or_empty (adj g) pid)) (adj g) of
                Inl e \<Rightarrow> Inl e
              | Inr a1 \<Rightarrow>
                  if has_key a1 pid then
                    Inr (g\<lparr>keyword_index := idx, adj := AList.delete pid a1,
                           nodes := AList.delete pid (nodes g)\<rparr>)
                  else Inl KeyError))"

subsection \<open>Neighbours and shared keywords\<close>

text \<open>A dataclass instance is always true in a condition, so \<^verbatim>\<open>if neighbor:\<close> and
  \<^verbatim>\<open>if edge:\<close> test for \<^verbatim>\<open>None\<close> only.\<close>

definition get_neighbors :: "PostGraph \<Rightarrow> string \<Rightarrow> (OSINTPost \<times> Edge) list" where
  "get_neighbors g pid =
     List.map_filter
       (\<lambda>(neighbor_id, edge).
          case map_of (nodes g) neighbor_id of
            None \<Rightarrow> None
          | Some neighbor \<Rightarrow> Some (neighbor, edge))
       (get_or_empty (adj g) pid)"

definition get_edge :: "PostGraph \<Rightarrow> string \<Rightarrow> string \<Rightarrow> Edge option" where
  "get_edge g id_a id_b = map_of (get_or_empty (adj g) id_a) id_b"

definition get_shared_keywords :: "PostGraph \<Rightarrow> string \<Rightarrow> string \<Rightarrow> string set" where
  "get_shared_keywords g id_a id_b =
     (case get_edge g id_a id_b of None \<Rightarrow> {} | Some edge \<Rightarrow> shared_keywords edge)"

subsection \<open>\<^verbatim>\<open>get_connected_components\<close>\<close>

text \<open>The ids that occur as a neighbour somewhere in the adjacency; the traversal never
  meets any other id, which bounds the \<^verbatim>\<open>while queue:\<close> loop.\<close>

definition targets :: "adjacency \<Rightarrow> string set" where
  "targets a = (\<Union>(k, m) \<in> set a. fst ` set m)"

text \<open>The \<^verbatim>\<open>while queue:\<close> loop: \<^verbatim>\<open>queue.popleft()\<close> takes the head, a visited id is
  skipped, a new one is added to the component and its unvisited neighbours are appended
  to the queue.\<close>

function bfs ::
  "adjacency \<Rightarrow> string list \<Rightarrow> string set \<Rightarrow> string list \<Rightarrow> string set \<times> string list" where
  "bfs a [] visited component = (visited, component)"
| "bfs a (current # queue) visited component =
     (if current \<in> visited then bfs a queue visited component
      else
        let visited' = insert current visited;
            component' = component @ [current];
            queue' = queue @ filter (\<lambda>neighbor_id. neighbor_id \<notin> visited')
                               (map fst (get_or_empty a current))
        in bfs a queue' visited' component')"
  by pat_completeness auto
termination
proof (relation "measures [\<lambda>(a, q, v, c). card ((set q \<union> targets a) - v),
                           \<lambda>(a, q, v, c). length q]", goal_cases)
  case 1
  show ?case by simp
next
  case (2 a current queue visited component)
  then have "(set (current # queue) \<union> targets a) - visited = (set queue \<union> targets a) - visited"
    by auto
  then show ?case by simp
next
  case (3 a current queue visited component v' c' q')
  have "finite (targets a)"
    by (auto simp add: targets_def)
  then have fin: "finite ((set (current # queue) \<union> targets a) - visited)"
    by simp
  have "set (map fst (get_or_empty a current)) \<subseteq> targets a"
  proof (cases "map_of a current")
    case None
    then show ?thesis by (simp add: get_or_empty_def)
  next
    case (Some m)
    then have "(current, m) \<in> set a" by (rule map_of_SomeD)
    then show ?thesis using Some by (force simp add: get_or_empty_def targets_def)
  qed
  then have "(set q' \<union> targets a) - v' \<subset> (set (current # queue) \<union> targets a) - visited"
    using 3 by auto
  then have "card ((set q' \<union> targets a) - v') < card ((set (current # queue) \<union> targets a) - visited)"
    using fin by (rule psubset_card_mono[rotated])
  then show ?case by simp
qed

text \<open>The loop \<^verbatim>\<open>for node_id in self._nodes\<close>, in the order of the node table.\<close>

fun components_loop ::
  "adjacency \<Rightarrow> string list \<Rightarrow> string set \<Rightarrow> string list list \<Rightarrow> string list list" where
  "components_loop a [] visited components = components"
| "components_loop a (node_id # rest) visited components =
     (if node_id \<in> visited then components_loop a rest visited components
      else
        (case bfs a [node_id] visited [] of
           (visited', component) \<Rightarrow>
             components_loop a rest visited' (components @ [component])))"

text \<open>\<^verbatim>\<open>list.sort(key=..., reverse=True)\<close> is stable: it orders by decreasing key and
  keeps entries with equal keys in the order they had. Sorting stably by the negated key
  does the same.\<close>

definition sort_desc :: "('a \<Rightarrow> int) \<Rightarrow> 'a list \<Rightarrow> 'a list" where
  "sort_desc key xs = sort_key (\<lambda>x. - key x) xs"

definition get_connected_components :: "PostGraph \<Rightarrow> string list list" where
  "get_connected_components g =
     sort_desc (\<lambda>c. int (length c)) (components_loop (adj g) (map fst (nodes g)) {} [])"

subsection \<open>\<^verbatim>\<open>get_cluster_keywords\<close>\<close>

text \<open>\<^verbatim>\<open>counts[kw_lower] = counts.get(kw_lower, 0) + 1\<close>\<close>

definition count_keyword :: "lowering \<Rightarrow> string \<Rightarrow> (string \<times> int) list \<Rightarrow> (string \<times> int) list" where
  "count_keyword lower kw counts =
     (let kw_lower = lower kw
      in AList.update kw_lower
           ((case map_of counts kw_lower of None \<Rightarrow> 0 | Some n \<Rightarrow> n) + 1) counts)"

definition get_cluster_keywords :: "lowering \<Rightarrow> PostGraph \<Rightarrow> string list \<Rightarrow> (string \<times> int) list" where
  "get_cluster_keywords lower g cluster_ids =
     fold (\<lambda>pid counts.
             case map_of (nodes g) pid of
               None \<Rightarrow> counts
             | Some post \<Rightarrow> fold (count_keyword lower) (matched_keywords post) counts)
          cluster_ids []"

subsection \<open>Counts and \<^verbatim>\<open>get_most_connected\<close>\<close>

definition node_count :: "PostGraph \<Rightarrow> int" where
  "node_count g = int (length (nodes g))"

definition edge_count :: "PostGraph \<Rightarrow> int" where
  "edge_count g = (\<Sum>(k, m) \<leftarrow> adj g. int (length m)) div 2"

text \<open>\<^verbatim>\<open>items[:limit]\<close>: a negative limit counts from the end of the list.\<close>

definition slice_to :: "int \<Rightarrow> 'a list \<Rightarrow> 'a list" where
  "slice_to limit xs =
     (if 0 \<le> limit then take (nat limit) xs else take (length xs - nat (- limit)) xs)"

definition degree_items :: "PostGraph \<Rightarrow> (OSINTPost \<times> int) list" where
  "degree_items g =
     List.map_filter
       (\<lambda>(pid, neighbors).
          case map_of (nodes g) pid of
            None \<Rightarrow> None
          | Some post \<Rightarrow> Some (post, int (length neighbors)))
       (adj g)"

definition get_most_connected :: "PostGraph \<Rightarrow> int \<Rightarrow> (OSINTPost \<times> int) list" where
  "get_most_connected g limit = slice_to limit (sort_desc snd (degree_items g))"

subsection \<open>Sequences of calls\<close>

datatype call = AddPost OSINTPost | AddPosts "OSINTPost list" | RemovePost string

fun apply_call :: "lowering \<Rightarrow> PostGraph \<Rightarrow> call \<Rightarrow> py_error + PostGraph" where
  "apply_call lower g (AddPost post) = Inr (snd (add_post lower g post))"
| "apply_call lower g (AddPosts posts) = Inr (snd (add_posts lower g posts))"
| "apply_call lower g (RemovePost pid) = remove_post lower g pid"

text \<open>A sequence of calls stops at the first one that raises.\<close>

fun run :: "lowering \<Rightarrow> PostGraph \<Rightarrow> call list \<Rightarrow> py_error + PostGraph" where
  "run lower g [] = Inr g"
| "run lower g (c # cs) = (case apply_call lower g c of Inl e \<Rightarrow> Inl e | Inr g' \<Rightarrow> run lower g' cs)"

fun posts_of :: "call list \<Rightarrow> OSINTPost list" where
  "posts_of [] = []"
| "posts_of (AddPost post # cs) = post # posts_of cs"
| "posts_of (AddPosts posts # cs) = posts @ posts_of cs"
| "posts_of (RemovePost pid # cs) = posts_of cs"

text \<open>Batch insertion as the specification words it: one \<^verbatim>\<open>add_post\<close> call after the
  other, in the order of the list, adding up what the calls return.\<close>

fun add_post_each :: "lowering \<Rightarrow> PostGraph \<Rightarrow> OSINTPost list \<Rightarrow> int \<times> PostGraph" where
  "add_post_each lower g [] = (0, g)"
| "add_post_each lower g (post # posts) =
     (case add_post lower g post of (n, g') \<Rightarrow>
        case add_post_each lower g' posts of (m, g'') \<Rightarrow> (n + m, g''))"

subsection \<open>Notions used in the statements\<close>

text \<open>A document as the tests build it: an id and its matched keywords.\<close>

definition doc :: "string \<Rightarrow> string list \<Rightarrow> OSINTPost" where
  "doc i kws = \<lparr>post_id = i, date = 0, username = [], post_text = [], source = [], url = [],
                matched_keywords = kws, categories = []\<rparr>"

text \<open>The keyword set of a post as \<^verbatim>\<open>add_post\<close> and \<^verbatim>\<open>remove_post\<close> read it.\<close>

definition keyword_set :: "lowering \<Rightarrow> OSINTPost \<Rightarrow> string set" where
  "keyword_set lower post = set (post_keywords lower post)"

text \<open>The input contract: keywords in lower case, none twice.\<close>

definition normalized :: "lowering \<Rightarrow> OSINTPost \<Rightarrow> bool" where
  "normalized lower post =
     (list_all (\<lambda>kw. lower kw = kw) (matched_keywords post) \<and> distinct (matched_keywords post))"

text \<open>\<open>before ids a b\<close>: the id \<open>a\<close> stands in \<open>ids\<close> ahead of the first \<open>b\<close>.\<close>

definition before :: "'a list \<Rightarrow> 'a \<Rightarrow> 'a \<Rightarrow> bool" where
  "before ids a b = (a \<in> set (takeWhile (\<lambda>x. x \<noteq> b) ids))"

fun position :: "'a list \<Rightarrow> 'a \<Rightarrow> nat" where
  "position [] x = 0"
| "position (y # ys) x = (if y = x then 0 else Suc (position ys x))"

text \<open>The place in the node table of the earliest inserted member of a component.\<close>

definition first_position :: "string list \<Rightarrow> string list \<Rightarrow> nat" where
  "first_position ids c = Min (position ids ` set c)"

text \<open>The edge that two entries of the node table call for: none unless both ids are
  present, differ, and share at least one keyword and at least \<open>T\<close>; otherwise the
  edge that \<^verbatim>\<open>add_post\<close> builds when the later of the two is inserted.\<close>

definition expected_edge ::
  "lowering \<Rightarrow> int \<Rightarrow> (string \<times> OSINTPost) list \<Rightarrow> string \<Rightarrow> string \<Rightarrow> Edge option" where
  "expected_edge lower T ns a b =
     (case map_of ns a of
        None \<Rightarrow> None
      | Some pa \<Rightarrow>
          (case map_of ns b of
             None \<Rightarrow> None
           | Some pb \<Rightarrow>
               (let shared = set (post_keywords lower pa) \<inter> set (post_keywords lower pb)
                in if a \<noteq> b \<and> shared \<noteq> {} \<and> T \<le> int (card shared)
                   then Some \<lparr>post_id_a = (if before (map fst ns) a b then b else a),
                              post_id_b = (if before (map fst ns) a b then a else b),
                              shared_keywords = shared\<rparr>
                   else None)))"

text \<open>The index lists under each keyword exactly the present ids that carry it, and
  keeps no empty postings list.\<close>

definition index_ok :: "lowering \<Rightarrow> (string \<times> OSINTPost) list \<Rightarrow> kw_index \<Rightarrow> bool" where
  "index_ok lower ns idx =
     (\<forall>kw. distinct (get_or_empty idx kw)
          \<and> set (get_or_empty idx kw) = {k. \<exists>p. map_of ns k = Some p \<and> kw \<in> set (post_keywords lower p)}
          \<and> map_of idx kw \<noteq> Some [])"

text \<open>The invariant of the three dictionaries.\<close>

definition graph_inv :: "lowering \<Rightarrow> PostGraph \<Rightarrow> bool" where
  "graph_inv lower g =
     (distinct (map fst (nodes g))
      \<and> map fst (adj g) = map fst (nodes g)
      \<and> (\<forall>(k, p) \<in> set (nodes g). post_id p = k)
      \<and> (\<forall>x. distinct (map fst (get_or_empty (adj g) x)))
      \<and> (\<forall>x y. get_edge g x y = expected_edge lower (min_shared_keywords g) (nodes g) x y)
      \<and> index_ok lower (nodes g) (keyword_index g))"

text \<open>The documents of the scenario in the specification, and the graph they give.\<close>

definition doc_a :: OSINTPost where
  "doc_a = doc ''a'' [''mil'', ''drone'', ''night'']"

definition doc_b :: OSINTPost where
  "doc_b = doc ''b'' [''mil'', ''drone'']"

definition doc_c :: OSINTPost where
  "doc_c = doc ''c'' [''drone'', ''night'', ''storm'']"

definition scenario :: "int \<Rightarrow> PostGraph" where
  "scenario T = snd (add_posts ascii_lower (new_graph T) [doc_a, doc_b, doc_c])"

text \<open>Two documents with no keyword in common.\<close>

definition doc_x :: OSINTPost where "doc_x = doc ''x'' [''mil'']"

definition doc_y :: OSINTPost where "doc_y = doc ''y'' [''storm'']"

text \<open>Well-formedness of the stored graph: no id has two adjacency entries, no
  adjacency entry lists a neighbour twice, no post is its own neighbour, every stored
  edge is stored the other way round too with the same contents, and it carries the
  keywords that its two endpoints share, at least as many as the threshold asks for.\<close>

definition well_formed :: "PostGraph \<Rightarrow> bool" where
  "well_formed g =
     (distinct (map fst (adj g))
      \<and> (\<forall>(a, m) \<in> set (adj g).
            distinct (map fst m)
            \<and> (\<forall>(b, e) \<in> set m.
                  a \<noteq> b
                  \<and> get_edge g b a = Some e
                  \<and> (case map_of (nodes g) a of
                       None \<Rightarrow> False
                     | Some pa \<Rightarrow>
                         (case map_of (nodes g) b of
                            None \<Rightarrow> False
                          | Some pb \<Rightarrow>
                              shared_keywords e =
                                set (matched_keywords pa) \<inter> set (matched_keywords pb)
                              \<and> min_shared_keywords g \<le> weight e)))))"

text \<open>The node table that inserting the documents \<open>ds\<close> into an empty graph gives.\<close>

definition entries :: "OSINTPost list \<Rightarrow> (string \<times> OSINTPost) list" where
  "entries ds = map (\<lambda>p. (post_id p, p)) ds"

text \<open>How often the lowercased keywords of the listed posts that are in the node table
  contain \<open>kw\<close>; a listed id that is not in the node table counts for nothing.\<close>

definition keyword_total :: "lowering \<Rightarrow> PostGraph \<Rightarrow> string list \<Rightarrow> string \<Rightarrow> int" where
  "keyword_total lower g ids kw =
     (\<Sum>pid \<leftarrow> ids.
        case map_of (nodes g) pid of
          None \<Rightarrow> 0
        | Some post \<Rightarrow> int (count_list (map lower (matched_keywords post)) kw))"

text \<open>The keywords, as given, of the post stored under an id.\<close>

definition keywords_at :: "PostGraph \<Rightarrow> string \<Rightarrow> string set" where
  "keywords_at g pid =
     (case map_of (nodes g) pid of None \<Rightarrow> {} | Some post \<Rightarrow> set (matched_keywords post))"

text \<open>The count stored for a keyword, 0 when there is none.\<close>

definition count_of :: "(string \<times> int) list \<Rightarrow> string \<Rightarrow> int" where
  "count_of counts k = (case map_of counts k of None \<Rightarrow> 0 | Some n \<Rightarrow> n)"

text \<open>Two documents whose keywords differ in case only.\<close>

definition doc_p :: OSINTPost where
  "doc_p = doc ''p'' [''Drone'']"

definition doc_q :: OSINTPost where
  "doc_q = doc ''q'' [''DRONE'']"

text \<open>A frequency dictionary has no key twice and no count below 1.\<close>

definition counts_ok :: "(string \<times> int) list \<Rightarrow> bool" where
  "counts_ok counts = (distinct (map fst counts) \<and> (\<forall>(k, n) \<in> set counts. 0 < n))"

text \<open>One round of the loop over \<^verbatim>\<open>cluster_ids\<close>.\<close>

definition count_post :: "lowering \<Rightarrow> PostGraph \<Rightarrow> string \<Rightarrow> (string \<times> int) list \<Rightarrow> (string \<times> int) list" where
  "count_post lower g pid counts =
     (case map_of (nodes g) pid of
        None \<Rightarrow> counts
      | Some post \<Rightarrow> fold (count_keyword lower) (matched_keywords post) counts)"

text \<open>The order of the ranking: a higher degree first, and among equal degrees the
  post that stands earlier in the list of ids.\<close>

definition ranked_before :: "string list \<Rightarrow> OSINTPost \<times> int \<Rightarrow> OSINTPost \<times> int \<Rightarrow> bool" where
  "ranked_before ids x y =
     (snd y < snd x
      \<or> (snd x = snd y \<and> position ids (post_id (fst x)) < position ids (post_id (fst y))))"

text \<open>The order of the components: the longer one first, and of two of the same size
  the one whose earliest inserted member is the earlier.\<close>

definition component_before :: "string list \<Rightarrow> string list \<Rightarrow> string list \<Rightarrow> bool" where
  "component_before ids c d =
     (length d < length c
      \<or> (length c = length d \<and> first_position ids c < first_position ids d))"

text \<open>The scenario between two posts that stay alone under the threshold 2.\<close>

definition scenario_between :: PostGraph where
  "scenario_between =
     snd (add_post ascii_lower (snd (add_posts ascii_lower (snd (add_post ascii_lower (new_graph 2) doc_x)) [doc_a, doc_b, doc_c])) doc_y)"

text \<open>Two graphs that Python's \<^verbatim>\<open>==\<close> on the three dictionaries does not tell apart,
  with the node table and the adjacency keys in the same order.\<close>

definition same_graph :: "PostGraph \<Rightarrow> PostGraph \<Rightarrow> bool" where
  "same_graph g h =
     (min_shared_keywords g = min_shared_keywords h
      \<and> nodes g = nodes h
      \<and> map fst (adj g) = map fst (adj h)
      \<and> (\<forall>a b. get_edge g a b = get_edge h a b)
      \<and> (\<forall>kw. (map_of (keyword_index g) kw = None) = (map_of (keyword_index h) kw = None))
      \<and> (\<forall>kw. set (get_or_empty (keyword_index g) kw) = set (get_or_empty (keyword_index h) kw)))"

text \<open>The ids of the node table with which a new post shares enough keywords.\<close>

definition qualifying ::
  "lowering \<Rightarrow> int \<Rightarrow> (string \<times> OSINTPost) list \<Rightarrow> OSINTPost \<Rightarrow> string set" where
  "qualifying lower T ns post =
     {i. \<exists>p. map_of ns i = Some p
          \<and> keyword_set lower post \<inter> keyword_set lower p \<noteq> {}
          \<and> T \<le> int (card (keyword_set lower post \<inter> keyword_set lower p))}"

text \<open>The document \<open>doc_b\<close> again, under the same id with other keywords.\<close>

definition doc_b2 :: OSINTPost where
  "doc_b2 = doc ''b'' [''storm'', ''night'']"

text \<open>The graph of the two documents that differ in case only, under the threshold 1.\<close>

definition graph_pq :: PostGraph where
  "graph_pq = snd (add_post ascii_lower (snd (add_post ascii_lower (new_graph 1) doc_p)) doc_q)"

text \<open>A document that carries one keyword twice, in two spellings.\<close>

definition doc_m :: OSINTPost where
  "doc_m = doc ''m'' [''Mil'', ''mil'']"

definition cand_set :: "(string \<times> string set) list \<Rightarrow> string \<Rightarrow> string set" where
  "cand_set cc other_id = (case map_of cc other_id of None \<Rightarrow> {} | Some s \<Rightarrow> s)"

definition new_edge :: "string \<Rightarrow> int \<Rightarrow> (string \<times> string set) list \<Rightarrow> string \<Rightarrow> Edge option" where
  "new_edge k T cs other_id =
     (case map_of cs other_id of
        None \<Rightarrow> None
      | Some S \<Rightarrow>
          if T \<le> int (card S)
          then Some \<lparr>post_id_a = k, post_id_b = other_id, shared_keywords = S\<rparr>
          else None)"

section \<open>Dictionaries\<close>

lemma update_absent: "k \<notin> fst ` set al \<Longrightarrow> AList.update k v al = al @ [(k, v)]"
  by (induction al) auto

lemma has_key_map_of: "has_key d k \<longleftrightarrow> map_of d k \<noteq> None"
  by (simp add: has_key_def map_of_eq_None_iff)

lemma get_or_empty_update:
  "get_or_empty (AList.update k v d) x = (if x = k then v else get_or_empty d x)"
  by (simp add: get_or_empty_def update_conv')

lemma get_or_empty_delete:
  "get_or_empty (AList.delete k d) x = (if x = k then [] else get_or_empty d x)"
  by (simp add: get_or_empty_def delete_conv')

lemma get_or_empty_absent: "\<not> has_key d k \<Longrightarrow> get_or_empty d k = []"
  by (simp add: get_or_empty_def has_key_map_of)

lemma candidate_add_map:
  "map_of (candidate_add kw i cc) x =
     (if x = i then Some (insert kw (cand_set cc i)) else map_of cc x)"
  by (simp add: candidate_add_def cand_set_def update_conv')

lemma candidate_add_distinct:
  "distinct (map fst cc) \<Longrightarrow> distinct (map fst (candidate_add kw i cc))"
  by (simp add: candidate_add_def distinct_update)

lemma candidate_inner_map:
  "map_of (fold (candidate_add kw) ids cc) x =
     (if x \<in> set ids then Some (insert kw (cand_set cc x)) else map_of cc x)"
proof (induction ids arbitrary: cc)
  case Nil
  show ?case by simp
next
  case (Cons i ids)
  show ?case
    by (simp add: Cons.IH candidate_add_map cand_set_def)
qed

lemma candidate_inner_distinct:
  "distinct (map fst cc) \<Longrightarrow> distinct (map fst (fold (candidate_add kw) ids cc))"
  by (induction ids arbitrary: cc) (simp_all add: candidate_add_distinct)

lemma candidate_outer_map:
  "map_of (fold (\<lambda>kw cc. fold (candidate_add kw) (get_or_empty idx kw) cc) kws acc) x =
     (if {kw \<in> set kws. x \<in> set (get_or_empty idx kw)} = {} then map_of acc x
      else Some ({kw \<in> set kws. x \<in> set (get_or_empty idx kw)} \<union> cand_set acc x))"
proof (induction kws arbitrary: acc)
  case Nil
  show ?case by simp
next
  case (Cons kw kws)
  show ?case
    by (auto simp add: Cons.IH candidate_inner_map cand_set_def)
qed

lemma candidate_outer_distinct:
  "distinct (map fst acc) \<Longrightarrow>
   distinct (map fst (fold (\<lambda>kw cc. fold (candidate_add kw) (get_or_empty idx kw) cc) kws acc))"
  by (induction kws arbitrary: acc) (simp_all add: candidate_inner_distinct)

lemma candidate_counts_map:
  "map_of (candidate_counts idx kws) x =
     (if {kw \<in> set kws. x \<in> set (get_or_empty idx kw)} = {} then None
      else Some {kw \<in> set kws. x \<in> set (get_or_empty idx kw)})"
  by (simp add: candidate_counts_def candidate_outer_map cand_set_def)

lemma candidate_counts_distinct: "distinct (map fst (candidate_counts idx kws))"
  by (simp add: candidate_counts_def candidate_outer_distinct)

section \<open>Candidates and new edges\<close>

lemma link_candidate_edge:
  "map_of (get_or_empty (snd (link_candidate k T (i, S) st)) x) y =
     (if T \<le> int (card S) \<and> ((x = k \<and> y = i) \<or> (x = i \<and> y = k))
      then Some \<lparr>post_id_a = k, post_id_b = i, shared_keywords = S\<rparr>
      else map_of (get_or_empty (snd st) x) y)"
  by (cases st) (auto simp add: link_candidate_def Let_def get_or_empty_update update_conv')

lemma link_candidate_keys:
  "has_key (snd st) k \<Longrightarrow> has_key (snd st) i \<Longrightarrow>
   map fst (snd (link_candidate k T (i, S) st)) = map fst (snd st)"
  by (cases st) (auto simp add: link_candidate_def Let_def has_key_def update_keys)

lemma link_candidate_inner_distinct:
  "distinct (map fst (get_or_empty (snd st) x)) \<Longrightarrow>
   distinct (map fst (get_or_empty (snd (link_candidate k T (i, S) st)) x))"
  by (cases st) (auto simp add: link_candidate_def Let_def get_or_empty_update distinct_update)

lemma link_fold_keys:
  "has_key (snd st) k \<Longrightarrow> \<forall>c \<in> set cs. has_key (snd st) (fst c) \<Longrightarrow>
   map fst (snd (fold (link_candidate k T) cs st)) = map fst (snd st)"
proof (induction cs arbitrary: st)
  case Nil
  show ?case by simp
next
  case (Cons c cs)
  obtain i S where c: "c = (i, S)" by (cases c)
  have keys: "map fst (snd (link_candidate k T c st)) = map fst (snd st)"
    using Cons.prems by (simp add: c link_candidate_keys)
  then have same: "\<And>z. has_key (snd (link_candidate k T c st)) z = has_key (snd st) z"
    by (metis has_key_def set_map)
  have "map fst (snd (fold (link_candidate k T) cs (link_candidate k T c st))) =
        map fst (snd (link_candidate k T c st))"
    by (rule Cons.IH) (use Cons.prems same in auto)
  with keys show ?case by simp
qed

lemma link_fold_inner_distinct:
  "distinct (map fst (get_or_empty (snd st) x)) \<Longrightarrow>
   distinct (map fst (get_or_empty (snd (fold (link_candidate k T) cs st)) x))"
proof (induction cs arbitrary: st)
  case Nil
  then show ?case by simp
next
  case (Cons c cs)
  obtain i S where c: "c = (i, S)" by (cases c)
  show ?case
    using Cons.prems by (simp add: c Cons.IH link_candidate_inner_distinct)
qed

lemma new_edge_Cons:
  "new_edge k T ((i, S) # cs) z =
     (if z = i then (if T \<le> int (card S)
                     then Some \<lparr>post_id_a = k, post_id_b = i, shared_keywords = S\<rparr> else None)
      else new_edge k T cs z)"
  by (simp add: new_edge_def)

lemma new_edge_absent: "z \<notin> fst ` set cs \<Longrightarrow> new_edge k T cs z = None"
  by (simp add: new_edge_def map_of_eq_None_iff[THEN iffD2])

lemma link_fold_edge:
  "distinct (map fst cs) \<Longrightarrow> k \<notin> fst ` set cs \<Longrightarrow>
   map_of (get_or_empty (snd (fold (link_candidate k T) cs st)) x) y =
     (if x = k \<and> new_edge k T cs y \<noteq> None then new_edge k T cs y
      else if y = k \<and> new_edge k T cs x \<noteq> None then new_edge k T cs x
      else map_of (get_or_empty (snd st) x) y)"
proof (induction cs arbitrary: st)
  case Nil
  show ?case by (simp add: new_edge_def)
next
  case (Cons c cs)
  obtain i S where c: "c = (i, S)" by (cases c)
  from Cons.prems have d: "distinct (map fst cs)" and k: "k \<notin> fst ` set cs"
    and ik: "i \<noteq> k" and i: "i \<notin> fst ` set cs"
    by (auto simp add: c)
  have ni: "new_edge k T cs i = None" using i by (rule new_edge_absent)
  have nk: "new_edge k T cs k = None" using k by (rule new_edge_absent)
  show ?case
    using ik ni nk
    by (simp add: c Cons.IH[OF d k] link_candidate_edge new_edge_Cons) auto
qed

lemma link_candidate_count:
  "fst (link_candidate k T c st) = fst st + (if T \<le> int (card (snd c)) then 1 else 0)"
  by (cases c; cases st) (simp add: link_candidate_def Let_def)

lemma link_fold_count:
  "fst (fold (link_candidate k T) cs st) =
     fst st + int (length (filter (\<lambda>c. T \<le> int (card (snd c))) cs))"
  by (induction cs arbitrary: st) (simp_all add: link_candidate_count)

section \<open>The expected edges\<close>

lemma map_of_Some_key: "map_of ns x = Some v \<Longrightarrow> x \<in> fst ` set ns"
  by (induction ns) (auto split: if_splits)

lemma before_total:
  "a \<in> set ids \<Longrightarrow> b \<in> set ids \<Longrightarrow> a \<noteq> b \<Longrightarrow> before ids a b \<longleftrightarrow> \<not> before ids b a"
  by (induction ids) (auto simp add: before_def)

lemma before_append_last:
  "k \<notin> set ids \<Longrightarrow> before (ids @ [k]) a k \<longleftrightarrow> a \<in> set ids"
proof -
  assume "k \<notin> set ids"
  then have "takeWhile (\<lambda>x. x \<noteq> k) (ids @ [k]) = ids @ takeWhile (\<lambda>x. x \<noteq> k) [k]"
    by (intro takeWhile_append2) auto
  then show ?thesis by (simp add: before_def)
qed

lemma before_append_old:
  "b \<in> set ids \<Longrightarrow> before (ids @ [k]) a b \<longleftrightarrow> before ids a b"
  by (simp add: before_def takeWhile_append1)

lemma before_mem: "before ids a b \<Longrightarrow> a \<in> set ids"
  by (auto simp add: before_def dest: set_takeWhileD)

lemma takeWhile_filter_commute:
  "(\<And>x. \<not> P x \<Longrightarrow> Q x) \<Longrightarrow> takeWhile P (filter Q xs) = filter Q (takeWhile P xs)"
  by (induction xs) auto

lemma before_removeAll:
  "b \<noteq> k \<Longrightarrow> before (removeAll k ids) a b \<longleftrightarrow> a \<noteq> k \<and> before ids a b"
proof -
  assume "b \<noteq> k"
  then have "takeWhile (\<lambda>x. x \<noteq> b) (filter ((\<noteq>) k) ids)
      = filter ((\<noteq>) k) (takeWhile (\<lambda>x. x \<noteq> b) ids)"
    by (intro takeWhile_filter_commute) auto
  then show ?thesis
    by (auto simp add: before_def removeAll_filter_not_eq)
qed

lemma expected_edge_sym:
  "expected_edge lower T ns a b = expected_edge lower T ns b a"
proof (cases "map_of ns a")
  case None
  then show ?thesis by (simp add: expected_edge_def split: option.splits)
next
  case (Some pa)
  note A = this
  show ?thesis
  proof (cases "map_of ns b")
    case None
    then show ?thesis by (simp add: expected_edge_def split: option.splits)
  next
    case (Some pb)
    have ma: "a \<in> set (map fst ns)" using A by (auto dest: map_of_Some_key)
    have mb: "b \<in> set (map fst ns)" using Some by (auto dest: map_of_Some_key)
    show ?thesis
    proof (cases "a = b")
      case True
      then show ?thesis by simp
    next
      case False
      from before_total[OF ma mb False] show ?thesis
        using A Some False by (auto simp add: expected_edge_def Let_def Int_commute)
    qed
  qed
qed

lemma map_of_append_last:
  "k \<notin> fst ` set ns \<Longrightarrow>
   map_of (ns @ [(k, v)]) x = (if x = k then Some v else map_of ns x)"
proof (cases "map_of ns x")
  case None
  then show ?thesis by (simp add: map_add_def)
next
  case (Some w)
  assume "k \<notin> fst ` set ns"
  with Some have "x \<noteq> k" by (auto dest: map_of_Some_key)
  with Some show ?thesis by (simp add: map_add_def)
qed

lemma expected_edge_append:
  assumes k: "k \<notin> fst ` set ns"
  shows "expected_edge lower T (ns @ [(k, post)]) x y =
     (if x = k \<and> y = k then None
      else if x = k then
        (case map_of ns y of
           None \<Rightarrow> None
         | Some py \<Rightarrow>
             if set (post_keywords lower post) \<inter> set (post_keywords lower py) \<noteq> {}
                \<and> T \<le> int (card (set (post_keywords lower post) \<inter> set (post_keywords lower py)))
             then Some \<lparr>post_id_a = k, post_id_b = y,
                        shared_keywords = set (post_keywords lower post) \<inter> set (post_keywords lower py)\<rparr>
             else None)
      else if y = k then
        (case map_of ns x of
           None \<Rightarrow> None
         | Some px \<Rightarrow>
             if set (post_keywords lower post) \<inter> set (post_keywords lower px) \<noteq> {}
                \<and> T \<le> int (card (set (post_keywords lower post) \<inter> set (post_keywords lower px)))
             then Some \<lparr>post_id_a = k, post_id_b = x,
                        shared_keywords = set (post_keywords lower post) \<inter> set (post_keywords lower px)\<rparr>
             else None)
      else expected_edge lower T ns x y)"
proof -
  have kk: "k \<notin> set (map fst ns)" using k by simp
  have b1: "\<And>a. before (map fst ns @ [k]) a k \<longleftrightarrow> a \<in> set (map fst ns)"
    using kk by (rule before_append_last)
  have b2: "\<not> before (map fst ns @ [k]) k a" if "a \<in> set (map fst ns)" for a
  proof
    assume "before (map fst ns @ [k]) k a"
    with that have "before (map fst ns) k a" by (simp add: before_append_old)
    then have "k \<in> set (map fst ns)" by (rule before_mem)
    with kk show False by simp
  qed
  have b3: "\<And>a b. b \<in> set (map fst ns) \<Longrightarrow>
      before (map fst ns @ [k]) a b \<longleftrightarrow> before (map fst ns) a b"
    by (rule before_append_old)
  have mem: "\<And>z v. map_of ns z = Some v \<Longrightarrow> z \<in> set (map fst ns)"
    by (auto dest: map_of_Some_key)
  note defs = expected_edge_def map_of_append_last Let_def
  show ?thesis
  proof (cases "x = k")
    case True
    note xk = this
    show ?thesis
    proof (cases "y = k")
      case True
      with xk k show ?thesis by (simp add: defs del: map_of_append)
    next
      case False
      note yk = this
      show ?thesis
      proof (cases "map_of ns y")
        case None
        with xk yk k show ?thesis by (simp add: defs del: map_of_append)
      next
        case (Some py)
        then have "\<not> before (map fst ns @ [k]) k y" by (intro b2 mem)
        with Some xk yk k show ?thesis by (simp add: defs del: map_of_append)
      qed
    qed
  next
    case False
    note xk = this
    show ?thesis
    proof (cases "map_of ns x")
      case None
      with xk k show ?thesis by (simp add: defs del: map_of_append)
    next
      case (Some px)
      note X = this
      then have mx: "x \<in> set (map fst ns)" by (rule mem)
      show ?thesis
      proof (cases "y = k")
        case True
        with X xk k mx show ?thesis by (simp add: defs b1 Int_commute del: map_of_append)
      next
        case False
        note yk = this
        show ?thesis
        proof (cases "map_of ns y")
          case None
          with X xk yk k show ?thesis by (simp add: defs del: map_of_append)
        next
          case (Some py)
          then have "y \<in> set (map fst ns)" by (rule mem)
          then have "before (map fst ns @ [k]) x y \<longleftrightarrow> before (map fst ns) x y" by (rule b3)
          with Some X xk yk k show ?thesis by (simp add: defs del: map_of_append)
        qed
      qed
    qed
  qed
qed

section \<open>\<^verbatim>\<open>add_post\<close> keeps the invariant\<close>

lemma index_add_get:
  "get_or_empty (index_add k kw idx) kw' =
     (if kw' = kw
      then (if k \<in> set (get_or_empty idx kw) then get_or_empty idx kw
            else get_or_empty idx kw @ [k])
      else get_or_empty idx kw')"
  by (simp add: index_add_def Let_def get_or_empty_update)

lemma index_add_fold_set:
  "set (get_or_empty (fold (index_add k) kws idx) kw) =
     (if kw \<in> set kws then insert k (set (get_or_empty idx kw))
      else set (get_or_empty idx kw))"
  by (induction kws arbitrary: idx) (auto simp add: index_add_get)

lemma index_add_fold_distinct:
  "distinct (get_or_empty idx kw) \<Longrightarrow> distinct (get_or_empty (fold (index_add k) kws idx) kw)"
proof (induction kws arbitrary: idx)
  case Nil
  then show ?case by simp
next
  case (Cons a kws)
  from Cons.prems have "distinct (get_or_empty (index_add k a idx) kw)"
    by (auto simp add: index_add_get)
  then show ?case by (simp add: Cons.IH)
qed

lemma index_add_nonempty:
  "map_of idx kw' \<noteq> Some [] \<Longrightarrow> map_of (index_add k kw idx) kw' \<noteq> Some []"
  by (auto simp add: index_add_def Let_def update_conv' get_or_empty_def split: option.splits)

lemma index_add_fold_nonempty:
  "map_of idx kw' \<noteq> Some [] \<Longrightarrow> map_of (fold (index_add k) kws idx) kw' \<noteq> Some []"
  by (induction kws arbitrary: idx) (simp_all add: index_add_nonempty)

lemma index_ok_add:
  assumes ok: "index_ok lower ns idx" and k: "k \<notin> fst ` set ns"
  shows "index_ok lower (ns @ [(k, post)]) (fold (index_add k) (post_keywords lower post) idx)"
  unfolding index_ok_def
proof (intro allI conjI)
  fix kw
  show "distinct (get_or_empty (fold (index_add k) (post_keywords lower post) idx) kw)"
    using ok by (simp add: index_ok_def index_add_fold_distinct)
  show "map_of (fold (index_add k) (post_keywords lower post) idx) kw \<noteq> Some []"
    using ok by (simp add: index_ok_def index_add_fold_nonempty)
  have old: "set (get_or_empty idx kw) = {i. \<exists>p. map_of ns i = Some p \<and> kw \<in> set (post_keywords lower p)}"
    using ok by (simp add: index_ok_def)
  have nk: "map_of ns k = None" using k by (simp add: map_of_eq_None_iff)
  show "set (get_or_empty (fold (index_add k) (post_keywords lower post) idx) kw) =
        {i. \<exists>p. map_of (ns @ [(k, post)]) i = Some p \<and> kw \<in> set (post_keywords lower p)}"
    using nk by (auto simp add: index_add_fold_set old map_of_append_last[OF k] simp del: map_of_append)
qed

lemma candidates_of_index:
  assumes ok: "index_ok lower ns idx"
  shows "map_of (candidate_counts idx kws) x =
     (case map_of ns x of
        None \<Rightarrow> None
      | Some p \<Rightarrow> if set kws \<inter> set (post_keywords lower p) = {} then None
                  else Some (set kws \<inter> set (post_keywords lower p)))"
proof -
  have "{kw \<in> set kws. x \<in> set (get_or_empty idx kw)} =
        (case map_of ns x of None \<Rightarrow> {} | Some p \<Rightarrow> set kws \<inter> set (post_keywords lower p))"
    using ok by (auto simp add: index_ok_def split: option.splits)
  then show ?thesis
    by (simp add: candidate_counts_map split: option.splits)
qed

lemma add_post_fresh:
  assumes "\<not> has_key (nodes g) (post_id post)"
  shows "snd (add_post lower g post) =
     g\<lparr>nodes := AList.update (post_id post) post (nodes g),
       adj := snd (fold (link_candidate (post_id post) (min_shared_keywords g))
                    (candidate_counts (keyword_index g) (post_keywords lower post))
                    (0, if has_key (adj g) (post_id post) then adj g
                        else AList.update (post_id post) [] (adj g))),
       keyword_index := fold (index_add (post_id post)) (post_keywords lower post) (keyword_index g)\<rparr>"
    and "fst (add_post lower g post) =
      fst (fold (link_candidate (post_id post) (min_shared_keywords g))
                    (candidate_counts (keyword_index g) (post_keywords lower post))
                    (0, if has_key (adj g) (post_id post) then adj g
                        else AList.update (post_id post) [] (adj g)))"
  using assms by (simp_all add: add_post_def Let_def split: prod.split)

lemma new_edge_of_index:
  assumes ok: "index_ok lower ns idx"
  shows "new_edge k T (candidate_counts idx (post_keywords lower post)) y =
     (case map_of ns y of
        None \<Rightarrow> None
      | Some py \<Rightarrow>
          if set (post_keywords lower post) \<inter> set (post_keywords lower py) \<noteq> {}
             \<and> T \<le> int (card (set (post_keywords lower post) \<inter> set (post_keywords lower py)))
          then Some \<lparr>post_id_a = k, post_id_b = y,
                     shared_keywords = set (post_keywords lower post) \<inter> set (post_keywords lower py)\<rparr>
          else None)"
  by (simp add: new_edge_def candidates_of_index[OF ok] split: option.splits)

lemma add_post_inv:
  assumes inv: "graph_inv lower g"
  shows "graph_inv lower (snd (add_post lower g post))"
proof (cases "has_key (nodes g) (post_id post)")
  case True
  then show ?thesis using inv by (simp add: add_post_def)
next
  case False
  define k where "k = post_id post"
  define T where "T = min_shared_keywords g"
  define cc where "cc = candidate_counts (keyword_index g) (post_keywords lower post)"
  define a1 where "a1 = AList.update k ([] :: neighbors) (adj g)"
  define a2 where "a2 = snd (fold (link_candidate k T) cc (0, a1))"
  define g' where "g' = snd (add_post lower g post)"
  from inv have d: "distinct (map fst (nodes g))"
    and keys: "map fst (adj g) = map fst (nodes g)"
    and ids: "\<forall>(i, p) \<in> set (nodes g). post_id p = i"
    and inner: "\<And>x. distinct (map fst (get_or_empty (adj g) x))"
    and edges: "\<And>x y. map_of (get_or_empty (adj g) x) y = expected_edge lower T (nodes g) x y"
    and idx: "index_ok lower (nodes g) (keyword_index g)"
    by (simp_all add: graph_inv_def get_edge_def T_def)
  have kn: "k \<notin> fst ` set (nodes g)" using False by (simp add: has_key_def k_def)
  have ka: "k \<notin> fst ` set (adj g)"
    using kn keys by (metis set_map)
  have nka: "\<not> has_key (adj g) k" using ka by (simp add: has_key_def)
  have g': "g' = g\<lparr>nodes := nodes g @ [(k, post)], adj := a2,
                   keyword_index := fold (index_add k) (post_keywords lower post) (keyword_index g)\<rparr>"
    using add_post_fresh(1)[OF False] nka
    by (simp add: g'_def k_def [symmetric] T_def [symmetric] cc_def [symmetric] a1_def a2_def
        update_absent[OF kn])
  have a1: "a1 = adj g @ [(k, [])]" by (simp add: a1_def update_absent[OF ka])
  have a1_get: "\<And>x. get_or_empty a1 x = (if x = k then [] else get_or_empty (adj g) x)"
    by (simp add: a1_def get_or_empty_update)
  have cc_keys: "\<And>c. c \<in> set cc \<Longrightarrow> fst c \<in> fst ` set (nodes g)"
  proof -
    fix c assume "c \<in> set cc"
    then have "map_of cc (fst c) \<noteq> None"
      by (simp add: map_of_eq_None_iff)
    then have "map_of (nodes g) (fst c) \<noteq> None"
      by (auto simp add: cc_def candidates_of_index[OF idx] split: option.splits)
    then show "fst c \<in> fst ` set (nodes g)" by (simp add: map_of_eq_None_iff)
  qed
  have cc_k: "k \<notin> fst ` set cc" using cc_keys kn by auto
  have cc_d: "distinct (map fst cc)" by (simp add: cc_def candidate_counts_distinct)
  have a2_keys: "map fst a2 = map fst (nodes g) @ [k]"
  proof -
    have "map fst a2 = map fst a1"
      unfolding a2_def
    proof (rule link_fold_keys[where st = "(0, a1)", simplified])
      show "has_key a1 k" by (simp add: a1 has_key_def)
      show "\<forall>c \<in> set cc. has_key a1 (fst c)"
        using cc_keys keys by (auto simp add: a1 has_key_def) (metis image_eqI set_map)
    qed
    then show ?thesis by (simp add: a1 keys)
  qed
  have a2_inner: "\<And>x. distinct (map fst (get_or_empty a2 x))"
    unfolding a2_def by (rule link_fold_inner_distinct) (simp add: a1_get inner)
  have a2_edges: "\<And>x y. map_of (get_or_empty a2 x) y = expected_edge lower T (nodes g @ [(k, post)]) x y"
  proof -
    fix x y
    have old: "\<And>u v. map_of (get_or_empty a1 u) v =
       (if u = k then None else expected_edge lower T (nodes g) u v)"
      by (simp add: a1_get edges)
    have nok: "\<And>z. expected_edge lower T (nodes g) z k = None"
      using kn by (simp add: expected_edge_def map_of_eq_None_iff[THEN iffD2] split: option.splits)
    have nek: "new_edge k T cc k = None" using cc_k by (rule new_edge_absent)
    have ne: "\<And>z. new_edge k T cc z =
       (case map_of (nodes g) z of
          None \<Rightarrow> None
        | Some pz \<Rightarrow>
            if set (post_keywords lower post) \<inter> set (post_keywords lower pz) \<noteq> {}
               \<and> T \<le> int (card (set (post_keywords lower post) \<inter> set (post_keywords lower pz)))
            then Some \<lparr>post_id_a = k, post_id_b = z,
                       shared_keywords = set (post_keywords lower post) \<inter> set (post_keywords lower pz)\<rparr>
            else None)"
      unfolding cc_def by (rule new_edge_of_index[OF idx])
    have lhs: "\<And>x y. map_of (get_or_empty a2 x) y =
       (if x = k \<and> new_edge k T cc y \<noteq> None then new_edge k T cc y
        else if y = k \<and> new_edge k T cc x \<noteq> None then new_edge k T cc x
        else map_of (get_or_empty a1 x) y)"
      by (simp only: a2_def link_fold_edge[OF cc_d cc_k] snd_conv)
    show "map_of (get_or_empty a2 x) y = expected_edge lower T (nodes g @ [(k, post)]) x y"
    proof (cases "x = k")
      case True
      note xk = this
      show ?thesis
      proof (cases "y = k")
        case True
        with xk show ?thesis
          by (simp add: lhs expected_edge_append[OF kn] nek old)
      next
        case False
        with xk show ?thesis
          by (simp add: lhs expected_edge_append[OF kn] old) (simp add: ne split: option.splits)
      qed
    next
      case False
      note xk = this
      show ?thesis
      proof (cases "y = k")
        case True
        with xk show ?thesis
          by (simp add: lhs expected_edge_append[OF kn] old nok) (simp add: ne split: option.splits)
      next
        case False
        with xk show ?thesis
          by (simp add: lhs expected_edge_append[OF kn] old)
      qed
    qed
  qed
  have "graph_inv lower g'"
    unfolding graph_inv_def
  proof (intro conjI)
    show "distinct (map fst (nodes g'))" using d kn by (simp add: g')
    show "map fst (adj g') = map fst (nodes g')" by (simp add: g' a2_keys)
    show "\<forall>(i, p) \<in> set (nodes g'). post_id p = i" using ids by (auto simp add: g' k_def)
    show "\<forall>x. distinct (map fst (get_or_empty (adj g') x))" by (simp add: g' a2_inner)
    show "\<forall>x y. get_edge g' x y = expected_edge lower (min_shared_keywords g') (nodes g') x y"
      by (simp add: g' get_edge_def a2_edges T_def [symmetric])
    show "index_ok lower (nodes g') (keyword_index g')"
      by (simp add: g' index_ok_add[OF idx kn])
  qed
  then show ?thesis by (simp add: g'_def)
qed

section \<open>\<^verbatim>\<open>remove_post\<close> keeps the invariant\<close>

lemma index_discard_get:
  "get_or_empty (index_discard k kw idx) kw' =
     (if kw' = kw then removeAll k (get_or_empty idx kw) else get_or_empty idx kw')"
  by (auto simp add: index_discard_def Let_def get_or_empty_def update_conv' delete_conv'
      split: option.splits)

lemma index_discard_nonempty:
  "map_of idx kw' \<noteq> Some [] \<Longrightarrow> map_of (index_discard k kw idx) kw' \<noteq> Some []"
  by (auto simp add: index_discard_def Let_def update_conv' delete_conv' split: option.splits)

lemma index_discard_fold_get:
  "get_or_empty (fold (index_discard k) kws idx) kw =
     (if kw \<in> set kws then removeAll k (get_or_empty idx kw) else get_or_empty idx kw)"
  by (induction kws arbitrary: idx) (auto simp add: index_discard_get)

lemma index_discard_fold_nonempty:
  "map_of idx kw' \<noteq> Some [] \<Longrightarrow> map_of (fold (index_discard k) kws idx) kw' \<noteq> Some []"
  by (induction kws arbitrary: idx) (simp_all add: index_discard_nonempty)

lemma index_ok_remove:
  assumes ok: "index_ok lower ns idx" and k: "map_of ns k = Some post"
  shows "index_ok lower (AList.delete k ns) (fold (index_discard k) (post_keywords lower post) idx)"
  unfolding index_ok_def
proof (intro allI conjI)
  fix kw
  have old: "set (get_or_empty idx kw) = {i. \<exists>p. map_of ns i = Some p \<and> kw \<in> set (post_keywords lower p)}"
    and dist: "distinct (get_or_empty idx kw)"
    using ok by (simp_all add: index_ok_def)
  show "distinct (get_or_empty (fold (index_discard k) (post_keywords lower post) idx) kw)"
    using dist by (simp add: index_discard_fold_get distinct_removeAll)
  show "map_of (fold (index_discard k) (post_keywords lower post) idx) kw \<noteq> Some []"
    using ok by (simp add: index_ok_def index_discard_fold_nonempty)
  show "set (get_or_empty (fold (index_discard k) (post_keywords lower post) idx) kw) =
        {i. \<exists>p. map_of (AList.delete k ns) i = Some p \<and> kw \<in> set (post_keywords lower p)}"
    using k by (auto simp add: index_discard_fold_get old delete_conv')
qed

lemma unlink_neighbors_ok:
  "\<forall>n \<in> set ns. has_key a n \<Longrightarrow>
   \<exists>a'. unlink_neighbors k ns a = Inr a' \<and> map fst a' = map fst a
       \<and> (\<forall>x. get_or_empty a' x =
                (if x \<in> set ns then AList.delete k (get_or_empty a x) else get_or_empty a x))"
proof (induction ns arbitrary: a)
  case Nil
  show ?case by simp
next
  case (Cons n ns)
  from Cons.prems have "has_key a n" by simp
  then obtain m where m: "map_of a n = Some m"
    by (auto simp add: has_key_map_of)
  define a1 where "a1 = AList.update n (AList.delete k m) a"
  have keys1: "map fst a1 = map fst a"
    using \<open>has_key a n\<close> by (simp add: a1_def update_keys has_key_def)
  then have "\<forall>n \<in> set ns. has_key a1 n"
    using Cons.prems by (metis has_key_def list.set_intros(2) set_map)
  from Cons.IH[OF this] obtain a' where a': "unlink_neighbors k ns a1 = Inr a'"
    "map fst a' = map fst a1"
    "\<forall>x. get_or_empty a' x =
        (if x \<in> set ns then AList.delete k (get_or_empty a1 x) else get_or_empty a1 x)"
    by blast
  have get1: "\<And>x. get_or_empty a1 x = (if x = n then AList.delete k m else get_or_empty a x)"
    by (simp add: a1_def get_or_empty_update)
  have gm: "get_or_empty a n = m" using m by (simp add: get_or_empty_def)
  have "unlink_neighbors k (n # ns) a = Inr a'"
    using m a'(1) by (simp add: a1_def)
  moreover have "map fst a' = map fst a" using a'(2) keys1 by simp
  moreover have "\<forall>x. get_or_empty a' x =
        (if x \<in> set (n # ns) then AList.delete k (get_or_empty a x) else get_or_empty a x)"
    using a'(3) by (auto simp add: get1 gm delete_idem)
  ultimately show ?case by blast
qed

lemma expected_edge_delete:
  assumes "x \<noteq> k" and "y \<noteq> k"
  shows "expected_edge lower T (AList.delete k ns) x y = expected_edge lower T ns x y"
proof -
  have m: "map_of (AList.delete k ns) x = map_of ns x" "map_of (AList.delete k ns) y = map_of ns y"
    using assms by (simp_all add: delete_conv')
  have b: "before (map fst (AList.delete k ns)) x y \<longleftrightarrow> before (map fst ns) x y"
    using assms by (simp add: delete_keys before_removeAll)
  show ?thesis
    unfolding expected_edge_def m b ..
qed

lemma expected_edge_None_left: "map_of ns x = None \<Longrightarrow> expected_edge lower T ns x y = None"
  by (simp add: expected_edge_def)

lemma expected_edge_None_right: "map_of ns y = None \<Longrightarrow> expected_edge lower T ns x y = None"
  by (simp add: expected_edge_def split: option.splits)

lemma expected_edge_Some_keys:
  "expected_edge lower T ns x y = Some e \<Longrightarrow> map_of ns x \<noteq> None \<and> map_of ns y \<noteq> None"
  by (auto simp add: expected_edge_def split: option.splits)

lemma remove_post_inv:
  assumes inv: "graph_inv lower g"
  shows "\<exists>g'. remove_post lower g k = Inr g' \<and> graph_inv lower g'"
proof (cases "map_of (nodes g) k")
  case None
  then show ?thesis using inv by (simp add: remove_post_def)
next
  case (Some post)
  define T where "T = min_shared_keywords g"
  define nbrs where "nbrs = map fst (get_or_empty (adj g) k)"
  define idx' where "idx' = fold (index_discard k) (post_keywords lower post) (keyword_index g)"
  from inv have d: "distinct (map fst (nodes g))"
    and keys: "map fst (adj g) = map fst (nodes g)"
    and ids: "\<forall>(i, p) \<in> set (nodes g). post_id p = i"
    and inner: "\<And>x. distinct (map fst (get_or_empty (adj g) x))"
    and edges: "\<And>x y. map_of (get_or_empty (adj g) x) y = expected_edge lower T (nodes g) x y"
    and idx: "index_ok lower (nodes g) (keyword_index g)"
    by (simp_all add: graph_inv_def get_edge_def T_def)
  have key_iff: "\<And>z. has_key (adj g) z \<longleftrightarrow> map_of (nodes g) z \<noteq> None"
    using keys by (metis has_key_def map_of_eq_None_iff set_map)
  have nb: "\<And>n. n \<in> set nbrs \<longleftrightarrow> expected_edge lower T (nodes g) k n \<noteq> None"
    unfolding nbrs_def edges[symmetric] by (simp add: map_of_eq_None_iff)
  have "\<forall>n \<in> set nbrs. has_key (adj g) n"
    using nb expected_edge_Some_keys key_iff by blast
  from unlink_neighbors_ok[OF this, of k] obtain a1 where
    a1: "unlink_neighbors k nbrs (adj g) = Inr a1" "map fst a1 = map fst (adj g)"
    and a1_get: "\<And>x. get_or_empty a1 x =
        (if x \<in> set nbrs then AList.delete k (get_or_empty (adj g) x) else get_or_empty (adj g) x)"
    by blast
  have hk: "has_key a1 k"
    using a1(2) key_iff[of k] Some by (metis has_key_def option.distinct(1) set_map)
  define g' where "g' = g\<lparr>keyword_index := idx', adj := AList.delete k a1,
                          nodes := AList.delete k (nodes g)\<rparr>"
  have res: "remove_post lower g k = Inr g'"
    using Some a1(1) hk
    by (simp add: remove_post_def Let_def nbrs_def [symmetric] idx'_def [symmetric] g'_def)
  have new_edges: "map_of (get_or_empty (AList.delete k a1) x) y =
       expected_edge lower T (AList.delete k (nodes g)) x y" for x y
  proof (cases "x = k \<or> y = k")
    case False
    then show ?thesis
      by (simp add: get_or_empty_delete a1_get delete_conv' edges expected_edge_delete)
  next
    case True
    have nk: "map_of (AList.delete k (nodes g)) k = None" by (simp add: delete_conv')
    have rhs: "expected_edge lower T (AList.delete k (nodes g)) x y = None"
      using True nk expected_edge_None_left expected_edge_None_right by metis
    have "map_of (get_or_empty (AList.delete k a1) x) y = None"
    proof (cases "x = k")
      case True
      then show ?thesis by (simp add: get_or_empty_delete)
    next
      case False
      with \<open>x = k \<or> y = k\<close> have yk: "y = k" by simp
      show ?thesis
      proof (cases "x \<in> set nbrs")
        case True
        with False yk show ?thesis
          by (simp add: get_or_empty_delete a1_get delete_conv')
      next
        case False
        then have "expected_edge lower T (nodes g) k x = None" by (simp add: nb)
        then have "expected_edge lower T (nodes g) x k = None" by (simp add: expected_edge_sym)
        with False \<open>x \<noteq> k\<close> yk show ?thesis
          by (simp add: get_or_empty_delete a1_get edges)
      qed
    qed
    with rhs show ?thesis by simp
  qed
  have "graph_inv lower g'"
    unfolding graph_inv_def
  proof (intro conjI)
    show "distinct (map fst (nodes g'))" using d by (simp add: g'_def distinct_delete)
    show "map fst (adj g') = map fst (nodes g')" by (simp add: g'_def delete_keys a1(2) keys)
    show "\<forall>(i, p) \<in> set (nodes g'). post_id p = i"
      using ids by (auto simp add: g'_def AList.delete_eq)
    show "\<forall>x. distinct (map fst (get_or_empty (adj g') x))"
      by (simp add: g'_def get_or_empty_delete a1_get inner distinct_delete)
    show "\<forall>x y. get_edge g' x y = expected_edge lower (min_shared_keywords g') (nodes g') x y"
      using new_edges by (simp add: g'_def get_edge_def T_def)
    show "index_ok lower (nodes g') (keyword_index g')"
      by (simp add: g'_def idx'_def index_ok_remove[OF idx Some])
  qed
  with res show ?thesis by blast
qed

section \<open>Reachable states\<close>

lemma add_posts_loop_each:
  "snd (add_posts_loop lower g posts st) = snd (add_post_each lower g posts)
   \<and> edges_created (fst (add_posts_loop lower g posts st)) = edges_created st + fst (add_post_each lower g posts)"
proof (induction posts arbitrary: g st)
  case Nil
  show ?case by simp
next
  case (Cons post posts)
  show ?case
  proof (cases "has_key (nodes g) (post_id post)")
    case True
    then have "add_post lower g post = (0, g)" by (simp add: add_post_def)
    with True show ?thesis by (simp add: Cons.IH split: prod.splits)
  next
    case False
    then show ?thesis by (simp add: Cons.IH split: prod.splits)
  qed
qed

lemma graph_inv_new: "graph_inv lower (new_graph T)"
  by (simp add: graph_inv_def new_graph_def index_ok_def get_or_empty_def get_edge_def
      expected_edge_def)

lemma add_post_threshold: "min_shared_keywords (snd (add_post lower g post)) = min_shared_keywords g"
  by (simp add: add_post_def Let_def split: prod.splits)

lemma add_post_each_snd:
  "snd (add_post_each lower g (post # posts)) = snd (add_post_each lower (snd (add_post lower g post)) posts)"
  by (cases "add_post lower g post"; cases "add_post_each lower (snd (add_post lower g post)) posts") simp

lemma add_post_each_inv:
  "graph_inv lower g \<Longrightarrow> graph_inv lower (snd (add_post_each lower g posts))"
proof (induction posts arbitrary: g)
  case Nil
  then show ?case by simp
next
  case (Cons post posts)
  from Cons.prems have "graph_inv lower (snd (add_post lower g post))" by (rule add_post_inv)
  then have "graph_inv lower (snd (add_post_each lower (snd (add_post lower g post)) posts))" by (rule Cons.IH)
  then show ?case by (simp only: add_post_each_snd)
qed

lemma add_post_each_threshold:
  "min_shared_keywords (snd (add_post_each lower g posts)) = min_shared_keywords g"
proof (induction posts arbitrary: g)
  case Nil
  show ?case by simp
next
  case (Cons post posts)
  have "min_shared_keywords (snd (add_post_each lower (snd (add_post lower g post)) posts)) =
        min_shared_keywords (snd (add_post lower g post))" by (rule Cons.IH)
  then show ?case by (simp only: add_post_each_snd add_post_threshold)
qed

lemma add_posts_each: "snd (add_posts lower g posts) = snd (add_post_each lower g posts)"
  by (simp add: add_posts_def add_posts_loop_each)

lemma remove_post_threshold:
  "remove_post lower g k = Inr g' \<Longrightarrow> min_shared_keywords g' = min_shared_keywords g"
  by (auto simp add: remove_post_def Let_def split: option.splits sum.splits if_splits)

lemma apply_call_inv:
  assumes "graph_inv lower g"
  shows "\<exists>g'. apply_call lower g c = Inr g' \<and> graph_inv lower g'
            \<and> min_shared_keywords g' = min_shared_keywords g"
proof (cases c)
  case (AddPost post)
  then show ?thesis using assms by (simp add: add_post_inv add_post_threshold)
next
  case (AddPosts posts)
  then show ?thesis
    using assms by (simp add: add_posts_each add_post_each_inv add_post_each_threshold)
next
  case (RemovePost k)
  from remove_post_inv[OF assms, of k] obtain g' where
    "remove_post lower g k = Inr g'" "graph_inv lower g'" by blast
  then show ?thesis using RemovePost by (simp add: remove_post_threshold)
qed

lemma run_inv:
  "graph_inv lower g \<Longrightarrow>
   \<exists>g'. run lower g cs = Inr g' \<and> graph_inv lower g' \<and> min_shared_keywords g' = min_shared_keywords g"
proof (induction cs arbitrary: g)
  case Nil
  then show ?case by simp
next
  case (Cons c cs)
  from apply_call_inv[OF Cons.prems, of c] obtain g1 where
    g1: "apply_call lower g c = Inr g1" "graph_inv lower g1" "min_shared_keywords g1 = min_shared_keywords g"
    by blast
  from Cons.IH[OF g1(2)] obtain g' where
    "run lower g1 cs = Inr g'" "graph_inv lower g'" "min_shared_keywords g' = min_shared_keywords g1"
    by blast
  with g1 show ?case by simp
qed

lemma reachable_inv:
  assumes "run lower (new_graph T) cs = Inr g"
  shows "graph_inv lower g" and "min_shared_keywords g = T"
proof -
  from run_inv[OF graph_inv_new, of lower T cs] assms
  show "graph_inv lower g" and "min_shared_keywords g = T"
    by (auto simp add: new_graph_def)
qed

lemma run_total: "\<exists>g. run lower (new_graph T) cs = Inr g"
  using run_inv[OF graph_inv_new, of lower T cs] by blast

lemma run_append:
  "run lower g (cs @ ds) = (case run lower g cs of Inl e \<Rightarrow> Inl e | Inr g' \<Rightarrow> run lower g' ds)"
  by (induction cs arbitrary: g) (simp_all split: sum.splits)

text \<open>What the invariant says about lookups.\<close>

lemma inv_edge:
  "graph_inv lower g \<Longrightarrow> get_edge g x y = expected_edge lower (min_shared_keywords g) (nodes g) x y"
  by (simp add: graph_inv_def)

lemma inv_absent_adj:
  assumes "graph_inv lower g" and "\<not> has_key (nodes g) k"
  shows "get_or_empty (adj g) k = []"
proof -
  from assms have "\<not> has_key (adj g) k"
    by (metis graph_inv_def has_key_def set_map)
  then show ?thesis by (rule get_or_empty_absent)
qed

lemma get_neighbors_empty: "get_or_empty (adj g) k = [] \<Longrightarrow> get_neighbors g k = []"
  by (simp add: get_neighbors_def List.map_filter_simps)

lemma get_shared_no_edge: "get_edge g a b = None \<Longrightarrow> get_shared_keywords g a b = {}"
  by (simp add: get_shared_keywords_def)

lemma run_scenario: "run ascii_lower (new_graph T) [AddPosts [doc_a, doc_b, doc_c]] = Inr (scenario T)"
  by (simp add: scenario_def)

lemma normalized_keywords: "normalized lower post \<Longrightarrow> set (post_keywords lower post) = set (matched_keywords post)"
proof -
  assume "normalized lower post"
  then have "map lower (matched_keywords post) = matched_keywords post"
    by (simp add: normalized_def list_all_iff map_idI)
  then show ?thesis by (simp add: post_keywords_def)
qed

lemma add_post_nodes:
  "nodes (snd (add_post lower g post)) =
     (if has_key (nodes g) (post_id post) then nodes g else nodes g @ [(post_id post, post)])"
  by (simp add: add_post_def Let_def update_absent has_key_def split: prod.splits)

lemma remove_post_nodes:
  "remove_post lower g k = Inr g' \<Longrightarrow> nodes g' = AList.delete k (nodes g)"
  by (auto simp add: remove_post_def Let_def map_of_eq_None_iff
      split: option.splits sum.splits if_splits)

lemma add_post_posts:
  assumes "\<forall>p \<in> snd ` set (nodes g). P p" and "P post"
  shows "\<forall>p \<in> snd ` set (nodes (snd (add_post lower g post))). P p"
proof (cases "has_key (nodes g) (post_id post)")
  case True
  with assms(1) show ?thesis by (simp add: add_post_nodes)
next
  case False
  with assms show ?thesis by (simp add: add_post_nodes)
qed

lemma add_post_each_posts:
  "\<forall>p \<in> snd ` set (nodes g). P p \<Longrightarrow> list_all P posts \<Longrightarrow>
   \<forall>p \<in> snd ` set (nodes (snd (add_post_each lower g posts))). P p"
proof (induction posts arbitrary: g)
  case Nil
  then show ?case by simp
next
  case (Cons post posts)
  from Cons.prems have "P post" and rest: "list_all P posts" by simp_all
  with Cons.prems(1) have "\<forall>p \<in> snd ` set (nodes (snd (add_post lower g post))). P p"
    by (intro add_post_posts)
  then have "\<forall>p \<in> snd ` set (nodes (snd (add_post_each lower (snd (add_post lower g post)) posts))). P p"
    using rest by (rule Cons.IH)
  then show ?case by (simp only: add_post_each_snd)
qed

lemma apply_call_posts:
  assumes "apply_call lower g c = Inr g1" and old: "\<forall>p \<in> snd ` set (nodes g). P p"
    and new: "list_all P (posts_of [c])"
  shows "\<forall>p \<in> snd ` set (nodes g1). P p"
proof (cases c)
  case (AddPost post)
  with assms(1) have g1: "g1 = snd (add_post lower g post)" by simp
  from AddPost new have "P post" by simp
  with old show ?thesis unfolding g1 by (rule add_post_posts)
next
  case (AddPosts posts)
  with assms(1) have g1: "g1 = snd (add_post_each lower g posts)" by (simp add: add_posts_each)
  from AddPosts new have "list_all P posts" by simp
  with old show ?thesis unfolding g1 by (rule add_post_each_posts)
next
  case (RemovePost k)
  with assms(1) have "nodes g1 = AList.delete k (nodes g)" by (simp add: remove_post_nodes)
  then have "set (nodes g1) \<subseteq> set (nodes g)" by (auto simp add: AList.delete_eq)
  with old show ?thesis by blast
qed

lemma posts_of_Cons: "posts_of (c # cs) = posts_of [c] @ posts_of cs"
  by (cases c) simp_all

lemma run_posts:
  "run lower g cs = Inr g' \<Longrightarrow> \<forall>p \<in> snd ` set (nodes g). P p \<Longrightarrow> list_all P (posts_of cs) \<Longrightarrow>
   \<forall>p \<in> snd ` set (nodes g'). P p"
proof (induction cs arbitrary: g)
  case Nil
  then show ?case by simp
next
  case (Cons c cs)
  from Cons.prems(1) obtain g1 where g1: "apply_call lower g c = Inr g1" "run lower g1 cs = Inr g'"
    by (cases "apply_call lower g c") simp_all
  from Cons.prems(3) have c: "list_all P (posts_of [c])" and cs: "list_all P (posts_of cs)"
    by (simp_all add: posts_of_Cons[of c cs])
  from g1(1) Cons.prems(2) c have "\<forall>p \<in> snd ` set (nodes g1). P p"
    by (rule apply_call_posts)
  with g1(2) show ?case using cs by (rule Cons.IH)
qed

lemma inv_adjacency_entry:
  assumes inv: "graph_inv lower g" and am: "(a, m) \<in> set (adj g)" and be: "(b, e) \<in> set m"
  shows "distinct (map fst m)"
    and "get_edge g a b = Some e"
proof -
  from inv have "distinct (map fst (adj g))" by (simp add: graph_inv_def)
  with am have "map_of (adj g) a = Some m" by simp
  then have goe: "get_or_empty (adj g) a = m" by (simp add: get_or_empty_def)
  from inv have "distinct (map fst (get_or_empty (adj g) a))" by (simp add: graph_inv_def)
  with goe show d: "distinct (map fst m)" by simp
  with be have "map_of m b = Some e" by simp
  with goe show "get_edge g a b = Some e" by (simp add: get_edge_def)
qed

lemma expected_edge_SomeD:
  assumes "expected_edge lower T ns a b = Some e"
  shows "\<exists>pa pb. map_of ns a = Some pa \<and> map_of ns b = Some pb \<and> a \<noteq> b
           \<and> shared_keywords e = set (post_keywords lower pa) \<inter> set (post_keywords lower pb)
           \<and> shared_keywords e \<noteq> {} \<and> T \<le> int (card (shared_keywords e))"
  using assms
  by (auto simp add: expected_edge_def Let_def split: option.splits if_splits)

section \<open>Removing and inserting again\<close>

lemma run_adds_nodes:
  "distinct (map post_id ds) \<Longrightarrow> \<forall>p \<in> set ds. \<not> has_key (nodes g) (post_id p) \<Longrightarrow>
   \<exists>g'. run lower g (map AddPost ds) = Inr g' \<and> nodes g' = nodes g @ entries ds"
proof (induction ds arbitrary: g)
  case Nil
  show ?case by (simp add: entries_def)
next
  case (Cons d ds)
  define g1 where "g1 = snd (add_post lower g d)"
  from Cons.prems have fresh: "\<not> has_key (nodes g) (post_id d)" by simp
  then have n1: "nodes g1 = nodes g @ [(post_id d, d)]"
    by (simp add: g1_def add_post_nodes)
  have "\<forall>p \<in> set ds. \<not> has_key (nodes g1) (post_id p)"
  proof
    fix p assume p: "p \<in> set ds"
    with Cons.prems(2) have "\<not> has_key (nodes g) (post_id p)" by simp
    moreover have "post_id p \<noteq> post_id d"
    proof
      assume "post_id p = post_id d"
      with p have "post_id d \<in> set (map post_id ds)" by (metis image_eqI set_map)
      with Cons.prems(1) show False by simp
    qed
    ultimately show "\<not> has_key (nodes g1) (post_id p)" by (simp add: n1 has_key_def)
  qed
  moreover from Cons.prems have "distinct (map post_id ds)" by simp
  ultimately obtain g' where "run lower g1 (map AddPost ds) = Inr g'" "nodes g' = nodes g1 @ entries ds"
    using Cons.IH by blast
  then show ?case by (simp add: g1_def [symmetric] n1 entries_def)
qed

lemma has_key_entries: "has_key (entries ds) k \<longleftrightarrow> k \<in> set (map post_id ds)"
  by (induction ds) (auto simp add: entries_def has_key_def)

lemma delete_entries:
  "AList.delete k (entries ds) = entries (filter (\<lambda>p. post_id p \<noteq> k) ds)"
  by (induction ds) (auto simp add: entries_def AList.delete_eq)

lemma index_key_iff:
  assumes "index_ok lower ns idx"
  shows "map_of idx kw = None \<longleftrightarrow> set (get_or_empty idx kw) = {}"
proof
  assume "map_of idx kw = None"
  then show "set (get_or_empty idx kw) = {}" by (simp add: get_or_empty_def)
next
  assume "set (get_or_empty idx kw) = {}"
  moreover from assms have "map_of idx kw \<noteq> Some []" by (simp add: index_ok_def)
  ultimately show "map_of idx kw = None"
    by (cases "map_of idx kw") (simp_all add: get_or_empty_def)
qed

lemma inv_same_graph:
  assumes g: "graph_inv lower g" and h: "graph_inv lower h" and n: "nodes g = nodes h"
    and T: "min_shared_keywords g = min_shared_keywords h"
  shows "same_graph g h"
proof -
  from g h have ig: "index_ok lower (nodes g) (keyword_index g)"
    and ih: "index_ok lower (nodes h) (keyword_index h)"
    by (simp_all add: graph_inv_def)
  have sets: "set (get_or_empty (keyword_index g) kw) = set (get_or_empty (keyword_index h) kw)" for kw
    using ig ih n by (simp add: index_ok_def)
  have keys: "(map_of (keyword_index g) kw = None) = (map_of (keyword_index h) kw = None)" for kw
    by (simp only: index_key_iff[OF ig] index_key_iff[OF ih] sets)
  have "map fst (adj g) = map fst (adj h)"
    using g h n by (simp add: graph_inv_def)
  moreover have "get_edge g a b = get_edge h a b" for a b
    by (simp add: inv_edge[OF g] inv_edge[OF h] n T)
  ultimately show ?thesis
    unfolding same_graph_def using n T sets keys by blast
qed

lemma inv_absent:
  assumes inv: "graph_inv lower g" and absent: "\<not> has_key (nodes g) k"
  shows "\<not> has_key (adj g) k"
    and "get_edge g a k = None" and "get_edge g k a = None"
    and "k \<notin> set (get_or_empty (keyword_index g) kw)"
proof -
  have none: "map_of (nodes g) k = None" using absent by (simp add: has_key_map_of)
  from inv absent show "\<not> has_key (adj g) k"
    by (metis graph_inv_def has_key_def set_map)
  show "get_edge g a k = None"
    by (simp add: inv_edge[OF inv] expected_edge_None_right[OF none])
  show "get_edge g k a = None"
    by (simp add: inv_edge[OF inv] expected_edge_None_left[OF none])
  from inv have "index_ok lower (nodes g) (keyword_index g)" by (simp add: graph_inv_def)
  then have "set (get_or_empty (keyword_index g) kw) =
      {i. \<exists>p. map_of (nodes g) i = Some p \<and> kw \<in> set (post_keywords lower p)}"
    by (simp add: index_ok_def)
  with none show "k \<notin> set (get_or_empty (keyword_index g) kw)" by simp
qed

lemma filter_keys_distinct:
  assumes "distinct (map fst cs)"
  shows "int (length (filter P cs)) = int (card {i. \<exists>v. map_of cs i = Some v \<and> P (i, v)})"
proof -
  have d: "distinct (map fst (filter P cs))" using assms by (rule distinct_map_filter)
  have "set (map fst (filter P cs)) = {i. \<exists>v. map_of cs i = Some v \<and> P (i, v)}"
    using assms by (auto simp add: image_iff)
  then have "card {i. \<exists>v. map_of cs i = Some v \<and> P (i, v)} = length (map fst (filter P cs))"
    using distinct_card[OF d] by simp
  then show ?thesis by simp
qed

lemma add_post_return:
  assumes inv: "graph_inv lower g" and fresh: "\<not> has_key (nodes g) (post_id post)"
  shows "fst (add_post lower g post) =
           int (card (qualifying lower (min_shared_keywords g) (nodes g) post))"
proof -
  let ?T = "min_shared_keywords g"
  let ?cc = "candidate_counts (keyword_index g) (post_keywords lower post)"
  from inv have idx: "index_ok lower (nodes g) (keyword_index g)" by (simp add: graph_inv_def)
  have "fst (add_post lower g post) = int (length (filter (\<lambda>c. ?T \<le> int (card (snd c))) ?cc))"
    by (simp add: add_post_fresh(2)[OF fresh] link_fold_count)
  also have "\<dots> = int (card {i. \<exists>v. map_of ?cc i = Some v \<and> ?T \<le> int (card (snd (i, v)))})"
    by (rule filter_keys_distinct) (rule candidate_counts_distinct)
  also have "{i. \<exists>v. map_of ?cc i = Some v \<and> ?T \<le> int (card (snd (i, v)))} =
      qualifying lower ?T (nodes g) post"
  proof -
    have "(\<exists>v. map_of ?cc i = Some v \<and> ?T \<le> int (card (snd (i, v)))) \<longleftrightarrow>
          i \<in> qualifying lower ?T (nodes g) post" for i
    proof (cases "map_of (nodes g) i")
      case None
      then show ?thesis
        by (simp add: candidates_of_index[OF idx] qualifying_def)
    next
      case (Some p)
      show ?thesis
      proof (cases "set (post_keywords lower post) \<inter> set (post_keywords lower p) = {}")
        case True
        with Some show ?thesis
          by (simp add: candidates_of_index[OF idx] qualifying_def keyword_set_def)
      next
        case False
        with Some show ?thesis
          by (simp add: candidates_of_index[OF idx] qualifying_def keyword_set_def)
      qed
    qed
    then show ?thesis by blast
  qed
  finally show ?thesis .
qed

lemma delete_appended:
  "k \<notin> fst ` set ns \<Longrightarrow> AList.delete k (ns @ [(k, v)]) = ns"
proof -
  assume k: "k \<notin> fst ` set ns"
  have "AList.delete k (ns @ [(k, v)]) = AList.delete k ns @ AList.delete k [(k, v)]"
    by (simp add: AList.delete_eq)
  also have "\<dots> = ns @ AList.delete k [(k, v)]" using k by simp
  also have "\<dots> = ns" by (simp add: AList.delete_eq)
  finally show ?thesis .
qed

lemma add_then_remove:
  assumes inv: "graph_inv lower g" and fresh: "\<not> has_key (nodes g) (post_id e)"
  shows "\<exists>g'. remove_post lower (snd (add_post lower g e)) (post_id e) = Inr g' \<and> same_graph g' g"
proof -
  let ?ga = "snd (add_post lower g e)"
  have inva: "graph_inv lower ?ga" using inv by (rule add_post_inv)
  have na: "nodes ?ga = nodes g @ [(post_id e, e)]" using fresh by (simp add: add_post_nodes)
  from remove_post_inv[OF inva, of "post_id e"] obtain g' where
    r: "remove_post lower ?ga (post_id e) = Inr g'" and inv': "graph_inv lower g'" by blast
  have "nodes g' = AList.delete (post_id e) (nodes g @ [(post_id e, e)])"
    by (simp only: remove_post_nodes[OF r] na)
  also have "\<dots> = nodes g"
    using fresh by (intro delete_appended) (simp add: has_key_def)
  finally have n: "nodes g' = nodes g" .
  have T: "min_shared_keywords g' = min_shared_keywords g"
    by (simp only: remove_post_threshold[OF r] add_post_threshold)
  from inv' inv n T have "same_graph g' g" by (rule inv_same_graph)
  with r show ?thesis by blast
qed

section \<open>Keyword frequencies\<close>

lemma counts_ok_map:
  "counts_ok counts \<Longrightarrow>
   map_of counts k = (if count_of counts k = 0 then None else Some (count_of counts k))"
proof (cases "map_of counts k")
  case None
  then show ?thesis by (simp add: count_of_def)
next
  case (Some n)
  assume "counts_ok counts"
  moreover from Some have "(k, n) \<in> set counts" by (rule map_of_SomeD)
  ultimately have "0 < n" by (auto simp add: counts_ok_def)
  with Some show ?thesis by (simp add: count_of_def)
qed

lemma count_keyword_count:
  "count_of (count_keyword lower kw counts) k =
     count_of counts k + (if lower kw = k then 1 else 0)"
  by (simp add: count_keyword_def count_of_def Let_def update_conv')

lemma count_keyword_ok: "counts_ok counts \<Longrightarrow> counts_ok (count_keyword lower kw counts)"
proof -
  assume ok: "counts_ok counts"
  have pos: "0 < count_of counts (lower kw) + 1"
  proof (cases "map_of counts (lower kw)")
    case None
    then show ?thesis by (simp add: count_of_def)
  next
    case (Some n)
    then have "(lower kw, n) \<in> set counts" by (rule map_of_SomeD)
    with ok have "0 < n" by (auto simp add: counts_ok_def)
    with Some show ?thesis by (simp add: count_of_def)
  qed
  have sub: "set (AList.update k v al) \<subseteq> insert (k, v) (set al)"
    for k :: string and v :: int and al
    by (induction al) auto
  have "\<forall>(k, n) \<in> set (count_keyword lower kw counts). 0 < n"
  proof (intro ballI)
    fix kn assume "kn \<in> set (count_keyword lower kw counts)"
    then have "kn \<in> insert (lower kw, count_of counts (lower kw) + 1) (set counts)"
      using sub[of "lower kw" "count_of counts (lower kw) + 1" counts]
      by (auto simp add: count_keyword_def Let_def count_of_def)
    then show "case kn of (k, n) \<Rightarrow> 0 < n"
      using ok pos by (auto simp add: counts_ok_def)
  qed
  moreover have "distinct (map fst (count_keyword lower kw counts))"
    using ok by (simp add: count_keyword_def Let_def counts_ok_def distinct_update)
  ultimately show ?thesis by (simp add: counts_ok_def)
qed

lemma count_fold_count:
  "count_of (fold (count_keyword lower) kws counts) k =
     count_of counts k + int (count_list (map lower kws) k)"
  by (induction kws arbitrary: counts) (simp_all add: count_keyword_count)

lemma count_fold_ok: "counts_ok counts \<Longrightarrow> counts_ok (fold (count_keyword lower) kws counts)"
  by (induction kws arbitrary: counts) (simp_all add: count_keyword_ok)

lemma get_cluster_keywords_fold:
  "get_cluster_keywords lower g ids = fold (count_post lower g) ids []"
  by (simp add: get_cluster_keywords_def count_post_def[abs_def])

lemma count_post_fold_count:
  "count_of (fold (count_post lower g) ids counts) k = count_of counts k + keyword_total lower g ids k"
proof (induction ids arbitrary: counts)
  case Nil
  show ?case by (simp add: keyword_total_def)
next
  case (Cons pid ids)
  have "count_of (count_post lower g pid counts) k = count_of counts k + keyword_total lower g [pid] k"
    by (simp add: count_post_def keyword_total_def count_fold_count split: option.splits)
  moreover have "keyword_total lower g (pid # ids) k = keyword_total lower g [pid] k + keyword_total lower g ids k"
    by (simp add: keyword_total_def)
  ultimately show ?case by (simp add: Cons.IH)
qed

lemma count_post_fold_ok: "counts_ok counts \<Longrightarrow> counts_ok (fold (count_post lower g) ids counts)"
proof (induction ids arbitrary: counts)
  case Nil
  then show ?case by simp
next
  case (Cons pid ids)
  from Cons.prems have "counts_ok (count_post lower g pid counts)"
    by (simp add: count_post_def count_fold_ok split: option.splits)
  then show ?case by (simp add: Cons.IH)
qed

lemma count_post_fold_skip:
  "fold (count_post lower g) ids counts = fold (count_post lower g) (filter (has_key (nodes g)) ids) counts"
proof (induction ids arbitrary: counts)
  case Nil
  show ?case by simp
next
  case (Cons pid ids)
  show ?case
  proof (cases "has_key (nodes g) pid")
    case True
    then show ?thesis by (simp add: Cons.IH)
  next
    case False
    then have "count_post lower g pid counts = counts"
      by (simp add: count_post_def has_key_map_of)
    with False show ?thesis by (simp add: Cons.IH)
  qed
qed

lemma cluster_keywords_map:
  "map_of (get_cluster_keywords lower g ids) kw =
     (if keyword_total lower g ids kw = 0 then None else Some (keyword_total lower g ids kw))"
proof -
  have ok: "counts_ok (get_cluster_keywords lower g ids)"
    unfolding get_cluster_keywords_fold by (rule count_post_fold_ok) (simp add: counts_ok_def)
  have "count_of (get_cluster_keywords lower g ids) kw = keyword_total lower g ids kw"
    unfolding get_cluster_keywords_fold count_post_fold_count by (simp add: count_of_def)
  with counts_ok_map[OF ok, of kw] show ?thesis by simp
qed

lemma count_list_distinct: "distinct xs \<Longrightarrow> count_list xs x = (if x \<in> set xs then 1 else 0)"
  by (induction xs) auto

lemma keyword_total_normalized:
  assumes "\<forall>pid \<in> set ids. \<forall>post. map_of (nodes g) pid = Some post \<longrightarrow> normalized lower post"
  shows "keyword_total lower g ids kw = int (length (filter (\<lambda>pid. kw \<in> keywords_at g pid) ids))"
  using assms
proof (induction ids)
  case Nil
  show ?case by (simp add: keyword_total_def)
next
  case (Cons pid ids)
  have step: "keyword_total lower g (pid # ids) kw = keyword_total lower g [pid] kw + keyword_total lower g ids kw"
    by (simp add: keyword_total_def)
  have one: "keyword_total lower g [pid] kw = (if kw \<in> keywords_at g pid then 1 else 0)"
  proof (cases "map_of (nodes g) pid")
    case None
    then show ?thesis by (simp add: keyword_total_def keywords_at_def)
  next
    case (Some post)
    with Cons.prems have n: "normalized lower post" by simp
    then have "map lower (matched_keywords post) = matched_keywords post"
      by (simp add: normalized_def list_all_iff map_idI)
    moreover from n have "distinct (matched_keywords post)" by (simp add: normalized_def)
    ultimately show ?thesis
      using Some by (simp add: keyword_total_def keywords_at_def count_list_distinct)
  qed
  from Cons.prems have "keyword_total lower g ids kw = int (length (filter (\<lambda>pid. kw \<in> keywords_at g pid) ids))"
    by (intro Cons.IH) simp
  with step one show ?case by simp
qed

section \<open>Lower case\<close>

lemma keyword_total_nonneg: "0 \<le> keyword_total lower g ids kw"
  unfolding keyword_total_def
  by (induction ids) (simp_all split: option.splits)

lemma keyword_total_Cons:
  "keyword_total lower g (pid # ids) kw = keyword_total lower g [pid] kw + keyword_total lower g ids kw"
  by (simp add: keyword_total_def)

lemma keyword_total_one:
  "keyword_total lower g [pid] kw \<noteq> 0 \<longleftrightarrow> kw \<in> lower ` keywords_at g pid"
  by (simp add: keyword_total_def keywords_at_def count_list_0_iff split: option.splits)

lemma keyword_total_pos:
  "keyword_total lower g ids kw \<noteq> 0 \<longleftrightarrow> kw \<in> lower ` (\<Union>pid \<in> set ids. keywords_at g pid)"
proof (induction ids)
  case Nil
  show ?case by (simp add: keyword_total_def)
next
  case (Cons pid ids)
  have "keyword_total lower g (pid # ids) kw \<noteq> 0 \<longleftrightarrow>
        keyword_total lower g [pid] kw \<noteq> 0 \<or> keyword_total lower g ids kw \<noteq> 0"
    using keyword_total_nonneg[of lower g "[pid]" kw] keyword_total_nonneg[of lower g ids kw]
    by (simp add: keyword_total_Cons[of lower g pid ids kw]) arith
  then show ?case
    by (simp only: Cons.IH keyword_total_one) auto
qed

lemma cluster_keywords_keys:
  "fst ` set (get_cluster_keywords lower g ids) = lower ` (\<Union>pid \<in> set ids. keywords_at g pid)"
proof -
  have "fst ` set (get_cluster_keywords lower g ids) = dom (map_of (get_cluster_keywords lower g ids))"
    by (simp add: dom_map_of_conv_image_fst)
  also have "\<dots> = {kw. keyword_total lower g ids kw \<noteq> 0}"
    by (auto simp add: dom_def cluster_keywords_map)
  also have "\<dots> = lower ` (\<Union>pid \<in> set ids. keywords_at g pid)"
    using keyword_total_pos[of lower g ids] by blast
  finally show ?thesis .
qed

lemma shared_keywords_lower:
  assumes inv: "graph_inv lower g"
  shows "get_shared_keywords g a b \<subseteq> lower ` keywords_at g a \<inter> lower ` keywords_at g b"
proof (cases "get_edge g a b")
  case None
  then show ?thesis by (simp add: get_shared_keywords_def)
next
  case (Some e)
  then have "expected_edge lower (min_shared_keywords g) (nodes g) a b = Some e"
    by (simp add: inv_edge[OF inv])
  from expected_edge_SomeD[OF this] obtain pa pb where
    "map_of (nodes g) a = Some pa" "map_of (nodes g) b = Some pb"
    "shared_keywords e = set (post_keywords lower pa) \<inter> set (post_keywords lower pb)" by blast
  with Some show ?thesis
    by (simp add: get_shared_keywords_def keywords_at_def post_keywords_def)
qed

lemma shared_keywords_edge:
  assumes inv: "graph_inv lower g" and e: "get_edge g a b \<noteq> None"
  shows "get_shared_keywords g a b = lower ` keywords_at g a \<inter> lower ` keywords_at g b"
proof -
  from e obtain ed where ed: "get_edge g a b = Some ed" by blast
  then have "expected_edge lower (min_shared_keywords g) (nodes g) a b = Some ed"
    by (simp add: inv_edge[OF inv])
  from expected_edge_SomeD[OF this] obtain pa pb where
    "map_of (nodes g) a = Some pa" "map_of (nodes g) b = Some pb"
    "shared_keywords ed = set (post_keywords lower pa) \<inter> set (post_keywords lower pb)" by blast
  with ed show ?thesis
    by (simp add: get_shared_keywords_def keywords_at_def post_keywords_def)
qed

lemma keywords_at_normalized:
  assumes "\<forall>p \<in> snd ` set (nodes g). normalized lower p"
  shows "lower ` keywords_at g pid = keywords_at g pid"
proof (cases "map_of (nodes g) pid")
  case None
  then show ?thesis by (simp add: keywords_at_def)
next
  case (Some post)
  then have "(pid, post) \<in> set (nodes g)" by (rule map_of_SomeD)
  then have "post \<in> snd ` set (nodes g)" by (rule image_eqI[rotated]) simp
  with assms have "normalized lower post" by blast
  then have "set (post_keywords lower post) = set (matched_keywords post)"
    by (rule normalized_keywords)
  with Some show ?thesis by (simp add: keywords_at_def post_keywords_def)
qed

section \<open>Stable sorting and the ranking by degree\<close>

lemma insort_key_ordered:
  fixes f :: "'a \<Rightarrow> int"
  assumes "sorted (map f ys)"
    and "sorted_wrt (\<lambda>x y. f x < f y \<or> (f x = f y \<and> P x y)) ys"
    and "\<forall>y \<in> set ys. P x y"
  shows "sorted_wrt (\<lambda>x y. f x < f y \<or> (f x = f y \<and> P x y)) (insort_key f x ys)"
  using assms
proof (induction ys)
  case Nil
  show ?case by simp
next
  case (Cons y ys)
  show ?case
  proof (cases "f x \<le> f y")
    case True
    have "f x < f z \<or> (f x = f z \<and> P x z)" if "z \<in> set (y # ys)" for z
    proof -
      from that Cons.prems(1) have "f y \<le> f z" by auto
      with True have "f x \<le> f z" by simp
      moreover from that Cons.prems(3) have "P x z" by auto
      ultimately show ?thesis by auto
    qed
    with True Cons.prems(2) show ?thesis by simp
  next
    case False
    from Cons.prems have "sorted_wrt (\<lambda>x y. f x < f y \<or> (f x = f y \<and> P x y)) (insort_key f x ys)"
      by (intro Cons.IH) simp_all
    moreover have "f y < f z \<or> (f y = f z \<and> P y z)" if "z \<in> set (insort_key f x ys)" for z
    proof -
      from that have "z = x \<or> z \<in> set ys" by (simp add: set_insort_key)
      then show ?thesis
      proof
        assume "z = x"
        with False show ?thesis by simp
      next
        assume "z \<in> set ys"
        with Cons.prems(2) show ?thesis by simp
      qed
    qed
    ultimately show ?thesis using False by simp
  qed
qed

lemma sort_key_ordered:
  fixes f :: "'a \<Rightarrow> int"
  assumes "sorted_wrt P xs"
  shows "sorted_wrt (\<lambda>x y. f x < f y \<or> (f x = f y \<and> P x y)) (sort_key f xs)"
  using assms
proof (induction xs)
  case Nil
  show ?case by simp
next
  case (Cons x xs)
  have "sorted_wrt (\<lambda>x y. f x < f y \<or> (f x = f y \<and> P x y)) (insort_key f x (sort_key f xs))"
  proof (rule insort_key_ordered)
    show "sorted (map f (sort_key f xs))" by (rule sorted_sort_key)
    show "sorted_wrt (\<lambda>x y. f x < f y \<or> (f x = f y \<and> P x y)) (sort_key f xs)"
      using Cons.prems by (intro Cons.IH) simp
    show "\<forall>y \<in> set (sort_key f xs). P x y" using Cons.prems by simp
  qed
  then show ?case by simp
qed

lemma sort_desc_ordered:
  assumes "sorted_wrt P xs"
  shows "sorted_wrt (\<lambda>x y. key y < key x \<or> (key x = key y \<and> P x y)) (sort_desc key xs)"
proof -
  have "sorted_wrt (\<lambda>x y. - key x < - key y \<or> (- key x = - key y \<and> P x y))
          (sort_key (\<lambda>x. - key x) xs)"
    using assms by (rule sort_key_ordered)
  then show ?thesis by (simp add: sort_desc_def)
qed

lemma set_sort_desc: "set (sort_desc key xs) = set xs"
  by (simp add: sort_desc_def)

lemma length_sort_desc: "length (sort_desc key xs) = length xs"
  by (simp add: sort_desc_def)

lemma sorted_wrt_position:
  "distinct ids \<Longrightarrow> sorted_wrt (\<lambda>a b. position ids a < position ids b) ids"
proof (induction ids)
  case Nil
  show ?case by simp
next
  case (Cons x xs)
  then have "sorted_wrt (\<lambda>a b. position xs a < position xs b) xs" by simp
  moreover have "position (x # xs) a < position (x # xs) b"
    if "a \<in> set xs" "b \<in> set xs" "position xs a < position xs b" for a b
    using that Cons.prems by auto
  ultimately have "sorted_wrt (\<lambda>a b. position (x # xs) a < position (x # xs) b) xs"
    by (rule sorted_wrt_mono_rel[rotated])
  moreover have "\<forall>y \<in> set xs. position (x # xs) x < position (x # xs) y"
    using Cons.prems by auto
  ultimately show ?case by simp
qed

lemma map_filter_all:
  "\<forall>x \<in> set xs. f x \<noteq> None \<Longrightarrow> List.map_filter f xs = map (\<lambda>x. the (f x)) xs"
  by (induction xs) (auto simp add: List.map_filter_simps)

lemma slice_to_take: "\<exists>n. slice_to limit xs = take n xs"
  by (auto simp add: slice_to_def)

lemma degree_items_inv:
  assumes inv: "graph_inv lower g"
  shows "map (\<lambda>x. post_id (fst x)) (degree_items g) = map fst (nodes g)"
    and "\<forall>x \<in> set (degree_items g).
           map_of (nodes g) (post_id (fst x)) = Some (fst x)
           \<and> snd x = int (length (get_or_empty (adj g) (post_id (fst x))))"
proof -
  from inv have keys: "map fst (adj g) = map fst (nodes g)"
    and d: "distinct (map fst (nodes g))"
    and ids: "\<forall>(k, p) \<in> set (nodes g). post_id p = k"
    by (simp_all add: graph_inv_def)
  have present: "\<exists>p. map_of (nodes g) k = Some p \<and> post_id p = k" if "(k, m) \<in> set (adj g)" for k m
  proof -
    from that have "k \<in> set (map fst (adj g))" by force
    then have "k \<in> fst ` set (nodes g)" by (simp add: keys)
    then obtain p where p: "map_of (nodes g) k = Some p"
      by (metis map_of_eq_None_iff not_Some_eq)
    then have "(k, p) \<in> set (nodes g)" by (rule map_of_SomeD)
    with ids have "post_id p = k" by auto
    with p show ?thesis by simp
  qed
  let ?f = "\<lambda>(pid, neighbors). case map_of (nodes g) pid of
              None \<Rightarrow> None | Some post \<Rightarrow> Some (post, int (length neighbors))"
  have "\<forall>x \<in> set (adj g). ?f x \<noteq> None"
    using present by fastforce
  then have items: "degree_items g = map (\<lambda>x. the (?f x)) (adj g)"
    unfolding degree_items_def by (rule map_filter_all)
  have "map (\<lambda>x. post_id (fst x)) (degree_items g) = map fst (adj g)"
    unfolding items using present by (fastforce simp add: comp_def)
  then show "map (\<lambda>x. post_id (fst x)) (degree_items g) = map fst (nodes g)"
    by (simp add: keys)
  show "\<forall>x \<in> set (degree_items g).
           map_of (nodes g) (post_id (fst x)) = Some (fst x)
           \<and> snd x = int (length (get_or_empty (adj g) (post_id (fst x))))"
  proof
    fix x assume "x \<in> set (degree_items g)"
    then obtain k m where km: "(k, m) \<in> set (adj g)" and x: "x = the (?f (k, m))"
      unfolding items by auto
    from present[OF km] obtain p where p: "map_of (nodes g) k = Some p" "post_id p = k"
      by blast
    from d keys have "distinct (map fst (adj g))" by simp
    with km have "map_of (adj g) k = Some m" by simp
    then have "get_or_empty (adj g) k = m" by (simp add: get_or_empty_def)
    with p x show "map_of (nodes g) (post_id (fst x)) = Some (fst x)
           \<and> snd x = int (length (get_or_empty (adj g) (post_id (fst x))))"
      by simp
  qed
qed

section \<open>The ranking\<close>

lemma ranking_inv:
  assumes inv: "graph_inv lower g"
  shows "sorted_wrt (ranked_before (map fst (nodes g))) (sort_desc snd (degree_items g))"
    and "length (sort_desc snd (degree_items g)) = length (nodes g)"
    and "distinct (map (\<lambda>x. post_id (fst x)) (sort_desc snd (degree_items g)))"
    and "set (map (\<lambda>x. post_id (fst x)) (sort_desc snd (degree_items g))) = fst ` set (nodes g)"
proof -
  let ?ids = "map fst (nodes g)"
  let ?h = "\<lambda>x :: OSINTPost \<times> int. post_id (fst x)"
  have ids: "map ?h (degree_items g) = ?ids" using inv by (rule degree_items_inv)
  from inv have d: "distinct ?ids" by (simp add: graph_inv_def)
  then have "sorted_wrt (\<lambda>a b. position ?ids a < position ?ids b) (map ?h (degree_items g))"
    unfolding ids by (rule sorted_wrt_position)
  then have "sorted_wrt (\<lambda>x y. position ?ids (?h x) < position ?ids (?h y)) (degree_items g)"
    by (simp add: sorted_wrt_map)
  then have "sorted_wrt (\<lambda>x y. snd y < snd x
        \<or> (snd x = snd y \<and> position ?ids (?h x) < position ?ids (?h y)))
      (sort_desc snd (degree_items g))"
    by (rule sort_desc_ordered)
  then show "sorted_wrt (ranked_before ?ids) (sort_desc snd (degree_items g))"
    by (simp add: ranked_before_def[abs_def])
  have "length (degree_items g) = length ?ids"
    using arg_cong[OF ids, of length] by simp
  then show "length (sort_desc snd (degree_items g)) = length (nodes g)"
    by (simp add: length_sort_desc)
  from d have dm: "distinct (map ?h (degree_items g))" by (simp only: ids)
  then have "distinct (degree_items g)" "inj_on ?h (set (degree_items g))"
    by (simp_all add: distinct_map)
  then show "distinct (map ?h (sort_desc snd (degree_items g)))"
    by (simp add: distinct_map sort_desc_def)
  have "set (map ?h (sort_desc snd (degree_items g))) = set (map ?h (degree_items g))"
    by (simp add: set_sort_desc)
  then show "set (map ?h (sort_desc snd (degree_items g))) = fst ` set (nodes g)"
    by (simp only: ids) simp
qed

section \<open>The traversal\<close>

lemma neighbors_in_targets: "set (map fst (get_or_empty a x)) \<subseteq> targets a"
proof (cases "map_of a x")
  case None
  then show ?thesis by (simp add: get_or_empty_def)
next
  case (Some m)
  then have "(x, m) \<in> set a" by (rule map_of_SomeD)
  then show ?thesis using Some by (force simp add: get_or_empty_def targets_def)
qed

lemma bfs_result:
  "\<exists>new. snd (bfs a q v c) = c @ new \<and> distinct new \<and> set new \<inter> v = {}
        \<and> fst (bfs a q v c) = v \<union> set new \<and> set new \<subseteq> set q \<union> targets a"
proof (induction a q v c rule: bfs.induct)
  case (1 a visited component)
  show ?case by simp
next
  case (2 a current queue visited component)
  show ?case
  proof (cases "current \<in> visited")
    case True
    from 2(1)[OF True] obtain new where
      "snd (bfs a queue visited component) = component @ new" "distinct new"
      "set new \<inter> visited = {}" "fst (bfs a queue visited component) = visited \<union> set new"
      "set new \<subseteq> set queue \<union> targets a" by blast
    with True show ?thesis by (intro exI[of _ new]) auto
  next
    case False
    define v' where "v' = insert current visited"
    define c' where "c' = component @ [current]"
    define q' where "q' = queue @ filter (\<lambda>n. n \<notin> v') (map fst (get_or_empty a current))"
    from 2(2)[OF False v'_def c'_def q'_def] obtain new where new:
      "snd (bfs a q' v' c') = c' @ new" "distinct new"
      "set new \<inter> v' = {}" "fst (bfs a q' v' c') = v' \<union> set new"
      "set new \<subseteq> set q' \<union> targets a" by blast
    have step: "bfs a (current # queue) visited component = bfs a q' v' c'"
      using False by (simp add: v'_def c'_def q'_def Let_def)
    have "set q' \<subseteq> set queue \<union> targets a"
      using neighbors_in_targets[of a current] by (auto simp add: q'_def)
    with new False show ?thesis
      unfolding step by (intro exI[of _ "current # new"]) (auto simp add: v'_def c'_def)
  qed
qed

lemma bfs_start:
  assumes "n \<notin> v"
  shows "n \<in> fst (bfs a [n] v [])"
proof -
  define v' where "v' = insert n v"
  define q' where "q' = filter (\<lambda>x. x \<notin> v') (map fst (get_or_empty a n))"
  have "bfs a [n] v [] = bfs a q' v' [n]"
    using assms by (simp add: v'_def q'_def Let_def)
  moreover from bfs_result[of a q' v' "[n]"] have "v' \<subseteq> fst (bfs a q' v' [n])" by auto
  ultimately show ?thesis by (auto simp add: v'_def)
qed

lemma position_at: "x \<notin> set xs \<Longrightarrow> position (xs @ x # ys) x = length xs"
  by (induction xs) auto

lemma position_ge: "x \<notin> set xs \<Longrightarrow> length xs \<le> position (xs @ ys) x"
  by (induction xs) auto

lemma components_loop_inv:
  assumes "distinct ids" and "ids = seen @ rest" and "targets a \<subseteq> set ids"
    and "set seen \<subseteq> v" and "v = set (concat comps)" and "v \<subseteq> set ids"
    and "distinct (concat comps)" and "[] \<notin> set comps"
    and "sorted_wrt (\<lambda>c d. first_position ids c < first_position ids d) comps"
    and "\<forall>c \<in> set comps. first_position ids c < length seen"
  shows "distinct (concat (components_loop a rest v comps))
     \<and> set (concat (components_loop a rest v comps)) = set ids
     \<and> [] \<notin> set (components_loop a rest v comps)
     \<and> sorted_wrt (\<lambda>c d. first_position ids c < first_position ids d)
          (components_loop a rest v comps)"
  using assms
proof (induction rest arbitrary: seen v comps)
  case Nil
  then have "set (concat comps) = set ids" by auto
  with Nil show ?case by simp
next
  case (Cons n rest)
  have ids: "ids = (seen @ [n]) @ rest" using Cons.prems(2) by simp
  show ?case
  proof (cases "n \<in> v")
    case True
    have "distinct (concat (components_loop a rest v comps))
     \<and> set (concat (components_loop a rest v comps)) = set ids
     \<and> [] \<notin> set (components_loop a rest v comps)
     \<and> sorted_wrt (\<lambda>c d. first_position ids c < first_position ids d)
          (components_loop a rest v comps)"
    proof (rule Cons.IH[OF Cons.prems(1) ids Cons.prems(3) _ Cons.prems(5,6,7,8,9)])
      show "set (seen @ [n]) \<subseteq> v" using True Cons.prems(4) by simp
      show "\<forall>c \<in> set comps. first_position ids c < length (seen @ [n])"
        using Cons.prems(10) by auto
    qed
    with True show ?thesis by simp
  next
    case False
    define v' where "v' = fst (bfs a [n] v [])"
    define comp where "comp = snd (bfs a [n] v [])"
    from bfs_result[of a "[n]" v "[]"] have comp: "distinct comp" "set comp \<inter> v = {}"
      "v' = v \<union> set comp" "set comp \<subseteq> {n} \<union> targets a"
      by (auto simp add: v'_def comp_def)
    have n_in: "n \<in> set comp"
      using bfs_start[OF False, of a] False comp(3) by (auto simp add: v'_def)
    have n_seen: "n \<notin> set seen" using False Cons.prems(4) by auto
    have n_ids: "n \<in> set ids" using Cons.prems(2) by simp
    have pos_n: "position ids n = length seen"
      unfolding Cons.prems(2) using n_seen by (rule position_at)
    have pos_ge: "length seen \<le> position ids x" if "x \<in> set comp" for x
    proof -
      from that comp(2) have "x \<notin> v" by auto
      with Cons.prems(4) have "x \<notin> set seen" by auto
      then show ?thesis unfolding Cons.prems(2) by (rule position_ge)
    qed
    have first: "first_position ids comp = length seen"
      unfolding first_position_def
    proof (rule Min_eqI)
      show "finite (position ids ` set comp)" by simp
      show "length seen \<le> y" if "y \<in> position ids ` set comp" for y
        using that pos_ge by auto
      show "length seen \<in> position ids ` set comp"
        using n_in pos_n by force
    qed
    have step: "components_loop a (n # rest) v comps = components_loop a rest v' (comps @ [comp])"
      using False by (simp add: v'_def comp_def split: prod.splits)
    have "distinct (concat (components_loop a rest v' (comps @ [comp])))
     \<and> set (concat (components_loop a rest v' (comps @ [comp]))) = set ids
     \<and> [] \<notin> set (components_loop a rest v' (comps @ [comp]))
     \<and> sorted_wrt (\<lambda>c d. first_position ids c < first_position ids d)
          (components_loop a rest v' (comps @ [comp]))"
    proof (rule Cons.IH[OF Cons.prems(1) ids Cons.prems(3)])
      show "set (seen @ [n]) \<subseteq> v'"
        using Cons.prems(4) n_in comp(3) by auto
      show "v' = set (concat (comps @ [comp]))"
        using Cons.prems(5) comp(3) by auto
      show "v' \<subseteq> set ids"
        using Cons.prems(6,3) comp(3,4) n_ids by auto
      show "distinct (concat (comps @ [comp]))"
        using Cons.prems(7,5) comp(1,2) by auto
      show "[] \<notin> set (comps @ [comp])"
        using Cons.prems(8) n_in by auto
      show "sorted_wrt (\<lambda>c d. first_position ids c < first_position ids d) (comps @ [comp])"
        using Cons.prems(9,10) first by (simp add: sorted_wrt_append)
      show "\<forall>c \<in> set (comps @ [comp]). first_position ids c < length (seen @ [n])"
        using Cons.prems(10) first by auto
    qed
    then show ?thesis unfolding step .
  qed
qed

lemma distinct_concat_insort:
  "distinct (concat (insort_key f x xs)) = distinct (concat (x # xs))"
  by (induction xs) (auto simp add: set_insort_key)

lemma distinct_concat_sort_key:
  "distinct (concat (sort_key f xs)) = distinct (concat xs)"
  by (induction xs) (simp_all add: distinct_concat_insort)

lemma inv_targets:
  assumes inv: "graph_inv lower g"
  shows "targets (adj g) \<subseteq> set (map fst (nodes g))"
proof
  fix b assume "b \<in> targets (adj g)"
  then obtain k m e where km: "(k, m) \<in> set (adj g)" and be: "(b, e) \<in> set m"
    by (auto simp add: targets_def)
  from inv km be have "get_edge g k b = Some e" by (rule inv_adjacency_entry)
  then have "expected_edge lower (min_shared_keywords g) (nodes g) k b = Some e"
    by (simp add: inv_edge[OF inv])
  then have "map_of (nodes g) b \<noteq> None" by (auto dest: expected_edge_Some_keys)
  then show "b \<in> set (map fst (nodes g))" by (simp add: map_of_eq_None_iff)
qed

section \<open>Claims\<close>

text \<open>C5. A post whose id is already in the node table: \<^verbatim>\<open>add_post\<close> returns 0 and
  leaves the node table, the adjacency and the keyword index as they are, hence the node
  count and the edge count too.\<close>

theorem add_post_duplicate:
  "has_key (nodes g) (post_id post) \<Longrightarrow>
   add_post lower g post = (0, g)
   \<and> node_count (snd (add_post lower g post)) = node_count g
   \<and> edge_count (snd (add_post lower g post)) = edge_count g"
  by (simp add: add_post_def)

theorem add_post_duplicate_witness:
  "has_key (nodes (snd (add_post ascii_lower (new_graph 2) (doc ''a'' [''mil'', ''drone''])))) (post_id (doc ''a'' [''mil'']))
   \<and> add_post ascii_lower (snd (add_post ascii_lower (new_graph 2) (doc ''a'' [''mil'', ''drone'']))) (doc ''a'' [''mil''])
       = (0, snd (add_post ascii_lower (new_graph 2) (doc ''a'' [''mil'', ''drone''])))"
proof -
  have h: "has_key (nodes (snd (add_post ascii_lower (new_graph 2) (doc ''a'' [''mil'', ''drone'']))))
              (post_id (doc ''a'' [''mil'']))"
    by code_simp
  from add_post_duplicate[OF h] h show ?thesis by simp
qed

text \<open>C6. \<^verbatim>\<open>add_posts\<close> ends in the state that one \<^verbatim>\<open>add_post\<close> call per list entry, in
  the order of the list, ends in, and the \<^verbatim>\<open>edges_created\<close> it reports is the sum of
  what those calls return.\<close>

theorem add_posts_sequential:
  "snd (add_posts lower g posts) = snd (add_post_each lower g posts)
   \<and> edges_created (fst (add_posts lower g posts)) = fst (add_post_each lower g posts)"
  using add_posts_loop_each[of lower g posts "\<lparr>nodes_added = 0, edges_created = 0\<rparr>"]
  by (simp add: add_posts_def)

theorem add_posts_sequential_witness:
  "snd (add_posts ascii_lower (new_graph 1) [doc ''a'' [''mil'', ''drone''], doc ''b'' [''drone''], doc ''a'' [''x'']])
     = snd (add_post_each ascii_lower (new_graph 1) [doc ''a'' [''mil'', ''drone''], doc ''b'' [''drone''], doc ''a'' [''x'']])
   \<and> edges_created (fst (add_posts ascii_lower (new_graph 1) [doc ''a'' [''mil'', ''drone''], doc ''b'' [''drone''], doc ''a'' [''x'']])) = 1"
proof -
  have "fst (add_post_each ascii_lower (new_graph 1) [doc ''a'' [''mil'', ''drone''], doc ''b'' [''drone''], doc ''a'' [''x'']]) = 1"
    by code_simp
  with add_posts_sequential[of ascii_lower "new_graph 1" "[doc ''a'' [''mil'', ''drone''], doc ''b'' [''drone''], doc ''a'' [''x'']]"]
  show ?thesis by simp
qed

text \<open>C7. In a state that calls have led to, \<^verbatim>\<open>remove_post\<close> never raises; for an id
  that is not in the node table it changes nothing, \<^verbatim>\<open>get_neighbors\<close> returns the
  empty list and \<^verbatim>\<open>get_shared_keywords\<close> the empty set, whichever side the id is on.
  \<^verbatim>\<open>get_neighbors\<close> is empty for an id whose adjacency entry is empty, and
  \<^verbatim>\<open>get_shared_keywords\<close> is empty for a pair with no edge.\<close>

theorem unknown_id_neutral:
  assumes "run lower (new_graph T) cs = Inr g"
  shows "(\<exists>g'. remove_post lower g k = Inr g')
     \<and> (\<not> has_key (nodes g) k \<longrightarrow>
          remove_post lower g k = Inr g \<and> get_neighbors g k = []
          \<and> get_shared_keywords g k b = {} \<and> get_shared_keywords g b k = {})
     \<and> (get_or_empty (adj g) k = [] \<longrightarrow> get_neighbors g k = [])
     \<and> (get_edge g x y = None \<longrightarrow> get_shared_keywords g x y = {})"
proof -
  have inv: "graph_inv lower g" using assms by (rule reachable_inv)
  have 1: "\<exists>g'. remove_post lower g k = Inr g'" using remove_post_inv[OF inv] by blast
  have 2: "remove_post lower g k = Inr g \<and> get_neighbors g k = []
          \<and> get_shared_keywords g k b = {} \<and> get_shared_keywords g b k = {}"
    if absent: "\<not> has_key (nodes g) k"
  proof -
    have none: "map_of (nodes g) k = None" using absent by (simp add: has_key_map_of)
    then have "remove_post lower g k = Inr g" by (simp add: remove_post_def)
    moreover have "get_neighbors g k = []"
      using inv_absent_adj[OF inv absent] by (rule get_neighbors_empty)
    moreover have "get_edge g k b = None"
      by (simp add: inv_edge[OF inv] expected_edge_None_left[OF none])
    moreover have "get_edge g b k = None"
      by (simp add: inv_edge[OF inv] expected_edge_None_right[OF none])
    ultimately show ?thesis by (simp add: get_shared_no_edge)
  qed
  show ?thesis
    using 1 2 get_neighbors_empty get_shared_no_edge by blast
qed

theorem unknown_id_neutral_witness:
  "run ascii_lower (new_graph 2) [AddPosts [doc_a, doc_b, doc_c]] = Inr (scenario 2)
   \<and> \<not> has_key (nodes (scenario 2)) ''zz''
   \<and> remove_post ascii_lower (scenario 2) ''zz'' = Inr (scenario 2)
   \<and> get_neighbors (scenario 2) ''zz'' = []
   \<and> get_shared_keywords (scenario 2) ''zz'' ''a'' = {}
   \<and> get_shared_keywords (scenario 2) ''a'' ''zz'' = {}
   \<and> get_edge (scenario 2) ''b'' ''c'' = None
   \<and> get_shared_keywords (scenario 2) ''b'' ''c'' = {}"
proof -
  have h1: "run ascii_lower (new_graph 2) [AddPosts [doc_a, doc_b, doc_c]] = Inr (scenario 2)"
    by (rule run_scenario)
  have h2: "\<not> has_key (nodes (scenario 2)) ''zz''"
    by code_simp
  have h3: "get_edge (scenario 2) ''b'' ''c'' = None"
    by code_simp
  from unknown_id_neutral[OF h1, of "''zz''" "''a''" "''b''" "''c''"] h1 h2 h3
  show ?thesis by simp
qed

text \<open>C2. After any sequence of \<^verbatim>\<open>add_post\<close>, \<^verbatim>\<open>add_posts\<close> and
  \<^verbatim>\<open>remove_post\<close> calls on documents with normalized keywords the graph is well
  formed: the adjacency is symmetric with identical edges, has no self-loop and at most
  one edge per pair, and every stored edge carries the intersection of the keyword
  sets of its endpoints, of size at least the threshold.\<close>

theorem reachable_well_formed:
  assumes run: "run lower (new_graph T) cs = Inr g"
    and norm: "list_all (normalized lower) (posts_of cs)"
  shows "well_formed g"
proof -
  have inv: "graph_inv lower g" and T: "min_shared_keywords g = T"
    using run by (rule reachable_inv)+
  have n: "\<forall>p \<in> snd ` set (nodes g). normalized lower p"
    using run _ norm by (rule run_posts) (simp add: new_graph_def)
  have entry: "a \<noteq> b \<and> get_edge g b a = Some e
      \<and> (case map_of (nodes g) a of
           None \<Rightarrow> False
         | Some pa \<Rightarrow>
             (case map_of (nodes g) b of
                None \<Rightarrow> False
              | Some pb \<Rightarrow>
                  shared_keywords e = set (matched_keywords pa) \<inter> set (matched_keywords pb)
                  \<and> min_shared_keywords g \<le> weight e))"
    if am: "(a, m) \<in> set (adj g)" and be: "(b, e) \<in> set m" for a m b e
  proof -
    have ab: "get_edge g a b = Some e" using inv am be by (rule inv_adjacency_entry)
    then have ex: "expected_edge lower T (nodes g) a b = Some e" by (simp add: inv_edge[OF inv] T)
    from expected_edge_SomeD[OF ex] obtain pa pb where
      p: "map_of (nodes g) a = Some pa" "map_of (nodes g) b = Some pb" "a \<noteq> b"
      "shared_keywords e = set (post_keywords lower pa) \<inter> set (post_keywords lower pb)"
      "T \<le> int (card (shared_keywords e))" by blast
    from p(1) have "(a, pa) \<in> set (nodes g)" by (rule map_of_SomeD)
    then have "pa \<in> snd ` set (nodes g)" by (rule image_eqI[rotated]) simp
    moreover from p(2) have "(b, pb) \<in> set (nodes g)" by (rule map_of_SomeD)
    then have "pb \<in> snd ` set (nodes g)" by (rule image_eqI[rotated]) simp
    ultimately have "pa \<in> snd ` set (nodes g)" "pb \<in> snd ` set (nodes g)" by simp_all
    with n have "normalized lower pa" "normalized lower pb" by blast+
    then have "set (post_keywords lower pa) = set (matched_keywords pa)"
      "set (post_keywords lower pb) = set (matched_keywords pb)"
      by (simp_all add: normalized_keywords)
    moreover have "get_edge g b a = Some e"
      using ex by (simp add: inv_edge[OF inv] T expected_edge_sym[of lower T "nodes g" b a])
    ultimately show ?thesis using p by (simp add: weight_def T)
  qed
  have "distinct (map fst (adj g))" using inv by (simp add: graph_inv_def)
  moreover have d2: "distinct (map fst m)" if "(a, m) \<in> set (adj g)" for a m
  proof (cases m)
    case Nil
    then show ?thesis by simp
  next
    case (Cons be m')
    then have "(fst be, snd be) \<in> set m" by simp
    with inv that show ?thesis by (rule inv_adjacency_entry)
  qed
  ultimately show ?thesis
    unfolding well_formed_def
  proof (intro conjI ballI)
    fix am assume am: "am \<in> set (adj g)"
    obtain a m where [simp]: "am = (a, m)" by (cases am)
    have dm: "distinct (map fst m)" using am d2 by simp
    have "\<forall>(b, e) \<in> set m. a \<noteq> b \<and> get_edge g b a = Some e
      \<and> (case map_of (nodes g) a of
           None \<Rightarrow> False
         | Some pa \<Rightarrow>
             (case map_of (nodes g) b of
                None \<Rightarrow> False
              | Some pb \<Rightarrow>
                  shared_keywords e = set (matched_keywords pa) \<inter> set (matched_keywords pb)
                  \<and> min_shared_keywords g \<le> weight e))"
    proof (intro ballI)
      fix be assume be: "be \<in> set m"
      obtain b e where [simp]: "be = (b, e)" by (cases be)
      from entry[of a m b e] am be show "case be of (b, e) \<Rightarrow> a \<noteq> b \<and> get_edge g b a = Some e
      \<and> (case map_of (nodes g) a of
           None \<Rightarrow> False
         | Some pa \<Rightarrow>
             (case map_of (nodes g) b of
                None \<Rightarrow> False
              | Some pb \<Rightarrow>
                  shared_keywords e = set (matched_keywords pa) \<inter> set (matched_keywords pb)
                  \<and> min_shared_keywords g \<le> weight e))" by simp
    qed
    with dm show "case am of (a, m) \<Rightarrow> distinct (map fst m) \<and> (\<forall>(b, e) \<in> set m. a \<noteq> b \<and> get_edge g b a = Some e
      \<and> (case map_of (nodes g) a of
           None \<Rightarrow> False
         | Some pa \<Rightarrow>
             (case map_of (nodes g) b of
                None \<Rightarrow> False
              | Some pb \<Rightarrow>
                  shared_keywords e = set (matched_keywords pa) \<inter> set (matched_keywords pb)
                  \<and> min_shared_keywords g \<le> weight e)))" by simp
  qed
qed

theorem reachable_well_formed_witness:
  "run ascii_lower (new_graph 2) [AddPosts [doc_a, doc_b, doc_c]] = Inr (scenario 2)
   \<and> list_all (normalized ascii_lower) (posts_of [AddPosts [doc_a, doc_b, doc_c]])
   \<and> well_formed (scenario 2)
   \<and> get_edge (scenario 2) ''a'' ''b''
        = Some \<lparr>post_id_a = ''b'', post_id_b = ''a'', shared_keywords = {''mil'', ''drone''}\<rparr>"
proof -
  have h1: "run ascii_lower (new_graph 2) [AddPosts [doc_a, doc_b, doc_c]] = Inr (scenario 2)"
    by (rule run_scenario)
  have h2: "list_all (normalized ascii_lower) (posts_of [AddPosts [doc_a, doc_b, doc_c]])"
    by code_simp
  have h3: "get_edge (scenario 2) ''a'' ''b''
        = Some \<lparr>post_id_a = ''b'', post_id_b = ''a'', shared_keywords = {''mil'', ''drone''}\<rparr>"
    by code_simp
  from reachable_well_formed[OF h1 h2] h1 h2 h3 show ?thesis by simp
qed

text \<open>C1, as amended. For two distinct documents in the node table of a state that calls
  have led to, whatever the order of the calls: an edge joins them if and only if the
  keywords they share are at least one and at least \<open>T\<close>; so for \<open>T \<ge> 1\<close> if
  and only if they share at least \<open>T\<close>. The edge is the same from either side, its
  shared keywords are that intersection and its weight is the size of it. The keyword
  set of a document is the set of its keywords lowercased by \<^verbatim>\<open>str.lower\<close>, which
  for normalized keywords is the set of its keywords.\<close>

theorem edge_iff_shared_keywords:
  assumes run: "run lower (new_graph T) cs = Inr g"
    and pa: "map_of (nodes g) a = Some pa"
    and pb: "map_of (nodes g) b = Some pb"
    and ab: "a \<noteq> b"
  shows "(get_edge g a b \<noteq> None \<longleftrightarrow>
            keyword_set lower pa \<inter> keyword_set lower pb \<noteq> {}
            \<and> T \<le> int (card (keyword_set lower pa \<inter> keyword_set lower pb)))
     \<and> (1 \<le> T \<longrightarrow>
           (get_edge g a b \<noteq> None \<longleftrightarrow> T \<le> int (card (keyword_set lower pa \<inter> keyword_set lower pb))))
     \<and> get_edge g b a = get_edge g a b
     \<and> (\<forall>e. get_edge g a b = Some e \<longrightarrow>
           shared_keywords e = keyword_set lower pa \<inter> keyword_set lower pb
           \<and> weight e = int (card (keyword_set lower pa \<inter> keyword_set lower pb)))
     \<and> (normalized lower pa \<and> normalized lower pb \<longrightarrow>
           keyword_set lower pa \<inter> keyword_set lower pb
             = set (matched_keywords pa) \<inter> set (matched_keywords pb))"
proof -
  have inv: "graph_inv lower g" and T: "min_shared_keywords g = T"
    using run by (rule reachable_inv)+
  define I where "I = keyword_set lower pa \<inter> keyword_set lower pb"
  have e: "get_edge g a b =
     (if I \<noteq> {} \<and> T \<le> int (card I)
      then Some \<lparr>post_id_a = (if before (map fst (nodes g)) a b then b else a),
                 post_id_b = (if before (map fst (nodes g)) a b then a else b),
                 shared_keywords = I\<rparr>
      else None)"
    using pa pb ab
    by (simp add: inv_edge[OF inv] T expected_edge_def I_def keyword_set_def Let_def)
  have s: "get_edge g b a = get_edge g a b"
    by (simp add: inv_edge[OF inv] expected_edge_sym[of _ _ _ b a])
  have nonempty: "I \<noteq> {}" if "1 \<le> T" "T \<le> int (card I)"
    using that by auto
  have raw: "normalized lower pa \<and> normalized lower pb \<longrightarrow>
           keyword_set lower pa \<inter> keyword_set lower pb
             = set (matched_keywords pa) \<inter> set (matched_keywords pb)"
    by (simp add: keyword_set_def normalized_keywords)
  have main: "(get_edge g a b \<noteq> None \<longleftrightarrow> I \<noteq> {} \<and> T \<le> int (card I))
     \<and> (1 \<le> T \<longrightarrow> (get_edge g a b \<noteq> None \<longleftrightarrow> T \<le> int (card I)))
     \<and> get_edge g b a = get_edge g a b
     \<and> (\<forall>e. get_edge g a b = Some e \<longrightarrow>
           shared_keywords e = I \<and> weight e = int (card I))"
    using nonempty by (auto simp add: e s weight_def)
  from main[unfolded I_def] raw show ?thesis
    by (elim conjE, intro conjI) assumption+
qed

theorem edge_iff_shared_keywords_witness:
  "run ascii_lower (new_graph 2) [AddPosts [doc_a, doc_b, doc_c]] = Inr (scenario 2)
   \<and> map_of (nodes (scenario 2)) ''a'' = Some doc_a
   \<and> map_of (nodes (scenario 2)) ''c'' = Some doc_c
   \<and> ''a'' \<noteq> ''c''
   \<and> normalized ascii_lower doc_a \<and> normalized ascii_lower doc_c
   \<and> set (matched_keywords doc_a) \<inter> set (matched_keywords doc_c) = {''drone'', ''night''}
   \<and> keyword_set ascii_lower doc_a \<inter> keyword_set ascii_lower doc_c = {''drone'', ''night''}
   \<and> get_edge (scenario 2) ''c'' ''a'' = get_edge (scenario 2) ''a'' ''c''
   \<and> (\<exists>e. get_edge (scenario 2) ''a'' ''c'' = Some e
           \<and> shared_keywords e = {''drone'', ''night''} \<and> weight e = 2)"
proof -
  have h1: "run ascii_lower (new_graph 2) [AddPosts [doc_a, doc_b, doc_c]] = Inr (scenario 2)"
    by (rule run_scenario)
  have h2: "map_of (nodes (scenario 2)) ''a'' = Some doc_a"
    by code_simp
  have h3: "map_of (nodes (scenario 2)) ''c'' = Some doc_c"
    by code_simp
  have h4: "''a'' \<noteq> ''c''" by simp
  have n: "normalized ascii_lower doc_a" "normalized ascii_lower doc_c"
    by code_simp+
  have m: "set (matched_keywords doc_a) \<inter> set (matched_keywords doc_c) = {''drone'', ''night''}"
    by code_simp
  have h6: "(2 :: int) \<le> int (card {''drone'', ''night''})"
    by simp
  note inst = edge_iff_shared_keywords[OF h1 h2 h3 h4]
  from inst n have "keyword_set ascii_lower doc_a \<inter> keyword_set ascii_lower doc_c
      = set (matched_keywords doc_a) \<inter> set (matched_keywords doc_c)"
    by blast
  then have h5: "keyword_set ascii_lower doc_a \<inter> keyword_set ascii_lower doc_c
      = {''drone'', ''night''}"
    by (simp only: m)
  note i1 = inst[THEN conjunct1, unfolded h5]
  note i3 = inst[THEN conjunct2, THEN conjunct2, THEN conjunct1]
  note i4 = inst[THEN conjunct2, THEN conjunct2, THEN conjunct2, THEN conjunct1, unfolded h5]
  from i1 h6 obtain e where e: "get_edge (scenario 2) ''a'' ''c'' = Some e"
    by auto
  with i4 have "shared_keywords e = {''drone'', ''night''}" "weight e = 2"
    by simp_all
  with e have ex: "\<exists>e. get_edge (scenario 2) ''a'' ''c'' = Some e
           \<and> shared_keywords e = {''drone'', ''night''} \<and> weight e = 2"
    by blast
  show ?thesis
    by (intro conjI h1 h2 h3 h4 n m h5 i3 ex)
qed

text \<open>C1 as stated fails for a threshold below 1: with the threshold 0, two documents
  without a common keyword stay unconnected, although the size of the intersection, 0,
  reaches the threshold.\<close>

theorem complete_graph_counterexample:
  "get_edge (snd (add_post ascii_lower (snd (add_post ascii_lower (new_graph 0) doc_x)) doc_y)) ''x'' ''y'' = None
   \<and> get_edge (snd (add_post ascii_lower (snd (add_post ascii_lower (new_graph 0) doc_x)) doc_y)) ''y'' ''x'' = None
   \<and> (0 :: int) \<le> int (card (set (matched_keywords doc_x) \<inter> set (matched_keywords doc_y)))"
  by code_simp

text \<open>C3. Removing is the inverse of inserting. For documents with distinct ids, inserting
  them all and removing one of them ends in the graph that inserting only the others
  ends in: the same node table, adjacency keys, edges, index keys and postings, with no
  node, adjacency entry, edge or posting of the removed id left. Inserting a document
  under that id afterwards, with the same or with other keywords, returns what it returns
  on the graph of the others and ends in the graph that inserting the others first and
  that document last ends in. And in any state that calls have led to, inserting a
  document with a new id and removing it again gives that state back. None of these
  sequences of calls raises.\<close>

theorem remove_then_reinsert:
  assumes d: "distinct (map post_id (xs @ d # ys))" and same_id: "post_id d' = post_id d"
  shows "(\<exists>g1 g0 g2 g3.
       run lower (new_graph T) (map AddPost (xs @ d # ys) @ [RemovePost (post_id d)]) = Inr g1
     \<and> run lower (new_graph T) (map AddPost (xs @ ys)) = Inr g0
     \<and> same_graph g1 g0
     \<and> \<not> has_key (nodes g1) (post_id d) \<and> \<not> has_key (adj g1) (post_id d)
     \<and> (\<forall>a. get_edge g1 a (post_id d) = None \<and> get_edge g1 (post_id d) a = None)
     \<and> (\<forall>kw. post_id d \<notin> set (get_or_empty (keyword_index g1) kw))
     \<and> run lower (new_graph T)
           (map AddPost (xs @ d # ys) @ [RemovePost (post_id d), AddPost d']) = Inr g2
     \<and> run lower (new_graph T) (map AddPost (xs @ ys @ [d'])) = Inr g3
     \<and> same_graph g2 g3
     \<and> fst (add_post lower g1 d') = fst (add_post lower g0 d'))
   \<and> (run lower (new_graph T) cs = Inr g \<and> \<not> has_key (nodes g) (post_id e) \<longrightarrow>
        (\<exists>g'. run lower (new_graph T) (cs @ [AddPost e, RemovePost (post_id e)]) = Inr g'
              \<and> same_graph g' g))"
proof -
  let ?k = "post_id d"
  let ?A = "map AddPost (xs @ d # ys)"
  have empty: "\<And>ds. \<forall>p \<in> set ds. \<not> has_key (nodes (new_graph T)) (post_id p)"
    by (simp add: new_graph_def has_key_def)
  from run_adds_nodes[OF d empty] obtain ga where
    ga: "run lower (new_graph T) ?A = Inr ga"
    and na: "nodes ga = entries (xs @ d # ys)"
    by (auto simp add: new_graph_def)
  have inva: "graph_inv lower ga" using ga by (rule reachable_inv)
  from remove_post_inv[OF inva, of ?k] obtain g1 where
    r: "remove_post lower ga ?k = Inr g1" by blast
  from d have "?k \<notin> set (map post_id xs)" "?k \<notin> set (map post_id ys)" by auto
  then have "\<forall>p \<in> set xs. post_id p \<noteq> ?k" "\<forall>p \<in> set ys. post_id p \<noteq> ?k"
    by (metis image_eqI set_map)+
  then have "filter (\<lambda>p. post_id p \<noteq> ?k) xs = xs" "filter (\<lambda>p. post_id p \<noteq> ?k) ys = ys"
    by (simp_all only: filter_True)
  then have keep: "filter (\<lambda>p. post_id p \<noteq> ?k) (xs @ d # ys) = xs @ ys"
    by simp
  have n1: "nodes g1 = entries (xs @ ys)"
    by (simp only: remove_post_nodes[OF r] na delete_entries keep)
  have "run lower (new_graph T) (?A @ [RemovePost ?k]) =
        (case run lower (new_graph T) ?A of
           Inl err \<Rightarrow> Inl err
         | Inr g' \<Rightarrow> run lower g' [RemovePost ?k])"
    by (rule run_append)
  also have "\<dots> = run lower ga [RemovePost ?k]"
    by (simp only: ga sum.case)
  also have "\<dots> = Inr g1"
    by (simp add: r)
  finally have run1: "run lower (new_graph T) (?A @ [RemovePost ?k]) = Inr g1" .
  have i1: "graph_inv lower g1" "min_shared_keywords g1 = T" using run1 by (rule reachable_inv)+
  have d0: "distinct (map post_id (xs @ ys))" using d by auto
  from run_adds_nodes[OF d0 empty] obtain g0 where
    run0: "run lower (new_graph T) (map AddPost (xs @ ys)) = Inr g0"
    and n0: "nodes g0 = entries (xs @ ys)"
    by (auto simp add: new_graph_def)
  have i0: "graph_inv lower g0" "min_shared_keywords g0 = T" using run0 by (rule reachable_inv)+
  have same10: "same_graph g1 g0"
    using i1(1) i0(1) by (rule inv_same_graph) (simp_all add: n1 n0 i1 i0)
  have "?k \<notin> set (map post_id (xs @ ys))" using d by auto
  then have absent: "\<not> has_key (nodes g1) ?k"
    by (simp only: n1 has_key_entries not_False_eq_True)
  note gone = inv_absent[OF i1(1) absent]
  define g2 where "g2 = snd (add_post lower g1 d')"
  have fresh': "\<not> has_key (nodes g1) (post_id d')" using absent by (simp add: same_id)
  have n2: "nodes g2 = entries (xs @ ys @ [d'])"
    using fresh' by (simp add: g2_def add_post_nodes n1 entries_def)
  have "run lower (new_graph T) (?A @ [RemovePost ?k, AddPost d']) =
        (case run lower (new_graph T) ?A of
           Inl err \<Rightarrow> Inl err
         | Inr g' \<Rightarrow> run lower g' [RemovePost ?k, AddPost d'])"
    by (rule run_append)
  also have "\<dots> = run lower ga [RemovePost ?k, AddPost d']"
    by (simp only: ga sum.case)
  also have "\<dots> = Inr g2"
    by (simp add: r g2_def)
  finally have run2: "run lower (new_graph T) (?A @ [RemovePost ?k, AddPost d']) = Inr g2" .
  have d3: "distinct (map post_id (xs @ ys @ [d']))" using d by (auto simp add: same_id)
  from run_adds_nodes[OF d3 empty] obtain g3 where
    run3: "run lower (new_graph T) (map AddPost (xs @ ys @ [d'])) = Inr g3"
    and n3: "nodes g3 = entries (xs @ ys @ [d'])"
    by (auto simp add: new_graph_def)
  have i2: "graph_inv lower g2" "min_shared_keywords g2 = T" using run2 by (rule reachable_inv)+
  have i3: "graph_inv lower g3" "min_shared_keywords g3 = T" using run3 by (rule reachable_inv)+
  have same23: "same_graph g2 g3"
    using i2(1) i3(1) by (rule inv_same_graph) (simp_all add: n2 n3 i2 i3)
  have fresh0: "\<not> has_key (nodes g0) (post_id d')" using fresh' by (simp add: n1 n0)
  have ret: "fst (add_post lower g1 d') = fst (add_post lower g0 d')"
    by (simp only: add_post_return[OF i1(1) fresh'] add_post_return[OF i0(1) fresh0] n1 n0 i1 i0)
  have part1: "\<exists>g1 g0 g2 g3.
       run lower (new_graph T) (map AddPost (xs @ d # ys) @ [RemovePost (post_id d)]) = Inr g1
     \<and> run lower (new_graph T) (map AddPost (xs @ ys)) = Inr g0
     \<and> same_graph g1 g0
     \<and> \<not> has_key (nodes g1) (post_id d) \<and> \<not> has_key (adj g1) (post_id d)
     \<and> (\<forall>a. get_edge g1 a (post_id d) = None \<and> get_edge g1 (post_id d) a = None)
     \<and> (\<forall>kw. post_id d \<notin> set (get_or_empty (keyword_index g1) kw))
     \<and> run lower (new_graph T)
           (map AddPost (xs @ d # ys) @ [RemovePost (post_id d), AddPost d']) = Inr g2
     \<and> run lower (new_graph T) (map AddPost (xs @ ys @ [d'])) = Inr g3
     \<and> same_graph g2 g3
     \<and> fst (add_post lower g1 d') = fst (add_post lower g0 d')"
    using run1 run0 same10 absent gone run2 run3 same23 ret
    by (intro exI[of _ g1] exI[of _ g0] exI[of _ g2] exI[of _ g3]) simp
  have part2: "\<exists>g'. run lower (new_graph T) (cs @ [AddPost e, RemovePost (post_id e)]) = Inr g'
              \<and> same_graph g' g"
    if "run lower (new_graph T) cs = Inr g \<and> \<not> has_key (nodes g) (post_id e)"
  proof -
    from that have rg: "run lower (new_graph T) cs = Inr g"
      and fe: "\<not> has_key (nodes g) (post_id e)" by simp_all
    have invg: "graph_inv lower g" using rg by (rule reachable_inv)
    from add_then_remove[OF invg fe] obtain g' where
      g': "remove_post lower (snd (add_post lower g e)) (post_id e) = Inr g'" "same_graph g' g"
      by blast
    have "run lower (new_graph T) (cs @ [AddPost e, RemovePost (post_id e)]) =
        (case run lower (new_graph T) cs of
           Inl err \<Rightarrow> Inl err
         | Inr h \<Rightarrow> run lower h [AddPost e, RemovePost (post_id e)])"
      by (rule run_append)
    also have "\<dots> = run lower g [AddPost e, RemovePost (post_id e)]"
      by (simp only: rg sum.case)
    also have "\<dots> = Inr g'"
      by (simp add: g'(1))
    finally show ?thesis using g'(2) by blast
  qed
  from part1 part2 show ?thesis by blast
qed

theorem remove_then_reinsert_witness:
  "distinct (map post_id ([doc_a] @ doc_b # [doc_c]))
   \<and> post_id doc_b2 = post_id doc_b
   \<and> (\<exists>g1 g0 g2 g3.
         run ascii_lower (new_graph 2)
           (map AddPost ([doc_a] @ doc_b # [doc_c]) @ [RemovePost (post_id doc_b)]) = Inr g1
       \<and> run ascii_lower (new_graph 2) (map AddPost ([doc_a] @ [doc_c])) = Inr g0
       \<and> nodes g1 = nodes g0
       \<and> get_edge g1 ''a'' ''b'' = None
       \<and> run ascii_lower (new_graph 2)
           (map AddPost ([doc_a] @ doc_b # [doc_c]) @ [RemovePost (post_id doc_b), AddPost doc_b2])
           = Inr g2
       \<and> run ascii_lower (new_graph 2) (map AddPost ([doc_a] @ [doc_c] @ [doc_b2])) = Inr g3
       \<and> nodes g2 = nodes g3
       \<and> get_edge g2 ''b'' ''c''
            = Some \<lparr>post_id_a = ''b'', post_id_b = ''c'', shared_keywords = {''storm'', ''night''}\<rparr>
       \<and> get_edge g2 ''b'' ''a'' = None)
   \<and> run ascii_lower (new_graph 2) [AddPosts [doc_a, doc_b, doc_c]] = Inr (scenario 2)
   \<and> \<not> has_key (nodes (scenario 2)) (post_id doc_x)
   \<and> (\<exists>g'. run ascii_lower (new_graph 2)
               ([AddPosts [doc_a, doc_b, doc_c]] @ [AddPost doc_x, RemovePost (post_id doc_x)])
             = Inr g'
          \<and> nodes g' = nodes (scenario 2)
          \<and> get_edge g' ''a'' ''x'' = None)"
proof -
  let ?G3 = "snd (add_post ascii_lower
                (snd (add_post ascii_lower (snd (add_post ascii_lower (new_graph 2) doc_a)) doc_c))
                doc_b2)"
  have h1: "distinct (map post_id ([doc_a] @ doc_b # [doc_c]))" by code_simp
  have h2: "post_id doc_b2 = post_id doc_b" by code_simp
  have h3: "run ascii_lower (new_graph 2) [AddPosts [doc_a, doc_b, doc_c]] = Inr (scenario 2)"
    by (rule run_scenario)
  have h4: "\<not> has_key (nodes (scenario 2)) (post_id doc_x)" by code_simp
  have b: "post_id doc_b = ''b''" by code_simp
  have x: "post_id doc_x = ''x''" by code_simp
  have r3: "run ascii_lower (new_graph 2) (map AddPost ([doc_a] @ [doc_c] @ [doc_b2])) = Inr ?G3"
    by simp
  have v1: "get_edge ?G3 ''b'' ''c''
      = Some \<lparr>post_id_a = ''b'', post_id_b = ''c'', shared_keywords = {''storm'', ''night''}\<rparr>"
    by code_simp
  have v2: "get_edge ?G3 ''b'' ''a'' = None" by code_simp
  have v3: "get_edge (scenario 2) ''a'' ''x'' = None" by code_simp
  note k = remove_then_reinsert[OF h1 h2, of ascii_lower 2 "[AddPosts [doc_a, doc_b, doc_c]]"
      "scenario 2" doc_x]
  from k[THEN conjunct1] obtain g1 g0 g2 g3 where
    p: "run ascii_lower (new_graph 2)
           (map AddPost ([doc_a] @ doc_b # [doc_c]) @ [RemovePost (post_id doc_b)]) = Inr g1"
      "run ascii_lower (new_graph 2) (map AddPost ([doc_a] @ [doc_c])) = Inr g0"
      "same_graph g1 g0"
      "\<forall>a. get_edge g1 a (post_id doc_b) = None \<and> get_edge g1 (post_id doc_b) a = None"
      "run ascii_lower (new_graph 2)
           (map AddPost ([doc_a] @ doc_b # [doc_c]) @ [RemovePost (post_id doc_b), AddPost doc_b2])
           = Inr g2"
      "run ascii_lower (new_graph 2) (map AddPost ([doc_a] @ [doc_c] @ [doc_b2])) = Inr g3"
      "same_graph g2 g3"
    by blast
  from p(6) r3 have g3: "g3 = ?G3" by simp
  have e1: "get_edge g1 ''a'' ''b'' = None" using p(4) by (simp add: b)
  have n10: "nodes g1 = nodes g0" using p(3) by (simp add: same_graph_def)
  have n23: "nodes g2 = nodes g3" using p(7) by (simp add: same_graph_def)
  have e23: "get_edge g2 ''b'' ''c'' = get_edge g3 ''b'' ''c''"
    "get_edge g2 ''b'' ''a'' = get_edge g3 ''b'' ''a''"
    using p(7) by (simp_all add: same_graph_def)
  have part1: "\<exists>g1 g0 g2 g3.
         run ascii_lower (new_graph 2)
           (map AddPost ([doc_a] @ doc_b # [doc_c]) @ [RemovePost (post_id doc_b)]) = Inr g1
       \<and> run ascii_lower (new_graph 2) (map AddPost ([doc_a] @ [doc_c])) = Inr g0
       \<and> nodes g1 = nodes g0
       \<and> get_edge g1 ''a'' ''b'' = None
       \<and> run ascii_lower (new_graph 2)
           (map AddPost ([doc_a] @ doc_b # [doc_c]) @ [RemovePost (post_id doc_b), AddPost doc_b2])
           = Inr g2
       \<and> run ascii_lower (new_graph 2) (map AddPost ([doc_a] @ [doc_c] @ [doc_b2])) = Inr g3
       \<and> nodes g2 = nodes g3
       \<and> get_edge g2 ''b'' ''c''
            = Some \<lparr>post_id_a = ''b'', post_id_b = ''c'', shared_keywords = {''storm'', ''night''}\<rparr>
       \<and> get_edge g2 ''b'' ''a'' = None"
    using p(1,2,5,6) n10 e1 n23 e23 v1 v2
    by (intro exI[of _ g1] exI[of _ g0] exI[of _ g2] exI[of _ g3]) (simp add: g3)
  from k[THEN conjunct2] h3 h4 obtain g' where
    q: "run ascii_lower (new_graph 2)
               ([AddPosts [doc_a, doc_b, doc_c]] @ [AddPost doc_x, RemovePost (post_id doc_x)])
             = Inr g'" "same_graph g' (scenario 2)"
    by blast
  have "nodes g' = nodes (scenario 2)" "get_edge g' ''a'' ''x'' = None"
    using q(2) v3 by (simp_all add: same_graph_def)
  with q(1) have part2: "\<exists>g'. run ascii_lower (new_graph 2)
               ([AddPosts [doc_a, doc_b, doc_c]] @ [AddPost doc_x, RemovePost (post_id doc_x)])
             = Inr g'
          \<and> nodes g' = nodes (scenario 2)
          \<and> get_edge g' ''a'' ''x'' = None"
    by (intro exI[of _ g']) simp
  show ?thesis
    by (intro conjI h1 h2 h3 h4 part1 part2)
qed

text \<open>C10, as amended. \<^verbatim>\<open>get_cluster_keywords\<close> is a total function of the graph and
  the list, and the ids of the list that are not in the node table do not matter: the
  result is the one for the list without them. The count of a keyword adds one for
  every entry of the list that is in the node table and every entry of that post's
  keyword list that gives the keyword when lowercased (no key when that is 0). For posts
  with normalized keywords it is the number of entries of the list whose post carries the
  keyword, and when moreover no id is listed twice, the number of listed posts that carry
  it.\<close>

theorem cluster_keywords_skip_absent:
  "get_cluster_keywords lower g ids = get_cluster_keywords lower g (filter (has_key (nodes g)) ids)
   \<and> distinct (map fst (get_cluster_keywords lower g ids))
   \<and> map_of (get_cluster_keywords lower g ids) kw =
        (if keyword_total lower g ids kw = 0 then None else Some (keyword_total lower g ids kw))
   \<and> ((\<forall>pid \<in> set ids. \<forall>post. map_of (nodes g) pid = Some post \<longrightarrow> normalized lower post) \<longrightarrow>
        keyword_total lower g ids kw = int (length (filter (\<lambda>pid. kw \<in> keywords_at g pid) ids)))
   \<and> (distinct ids
         \<and> (\<forall>pid \<in> set ids. \<forall>post. map_of (nodes g) pid = Some post \<longrightarrow> normalized lower post) \<longrightarrow>
        keyword_total lower g ids kw = int (card {pid \<in> set ids. kw \<in> keywords_at g pid}))"
proof -
  have "counts_ok (get_cluster_keywords lower g ids)"
    unfolding get_cluster_keywords_fold by (rule count_post_fold_ok) (simp add: counts_ok_def)
  then have "distinct (map fst (get_cluster_keywords lower g ids))" by (simp add: counts_ok_def)
  moreover have "get_cluster_keywords lower g ids = get_cluster_keywords lower g (filter (has_key (nodes g)) ids)"
    unfolding get_cluster_keywords_fold by (rule count_post_fold_skip)
  moreover note cluster_keywords_map[of lower g ids kw]
  moreover have "(\<forall>pid \<in> set ids. \<forall>post. map_of (nodes g) pid = Some post \<longrightarrow> normalized lower post) \<longrightarrow>
        keyword_total lower g ids kw = int (length (filter (\<lambda>pid. kw \<in> keywords_at g pid) ids))"
    by (intro impI keyword_total_normalized)
  moreover have "distinct ids
         \<and> (\<forall>pid \<in> set ids. \<forall>post. map_of (nodes g) pid = Some post \<longrightarrow> normalized lower post) \<longrightarrow>
        keyword_total lower g ids kw = int (card {pid \<in> set ids. kw \<in> keywords_at g pid})"
  proof
    assume a: "distinct ids
         \<and> (\<forall>pid \<in> set ids. \<forall>post. map_of (nodes g) pid = Some post \<longrightarrow> normalized lower post)"
    then have "keyword_total lower g ids kw = int (length (filter (\<lambda>pid. kw \<in> keywords_at g pid) ids))"
      by (intro keyword_total_normalized) simp
    moreover have "{pid \<in> set ids. kw \<in> keywords_at g pid} = {pid. kw \<in> keywords_at g pid} \<inter> set ids"
      by auto
    ultimately show "keyword_total lower g ids kw = int (card {pid \<in> set ids. kw \<in> keywords_at g pid})"
      using a by (simp add: distinct_length_filter)
  qed
  ultimately show ?thesis by (intro conjI)
qed

theorem cluster_keywords_skip_absent_witness:
  "get_cluster_keywords ascii_lower graph_pq [''p'', ''zz'', ''q'']
     = get_cluster_keywords ascii_lower graph_pq [''p'', ''q'']
   \<and> filter (has_key (nodes graph_pq)) [''p'', ''zz'', ''q''] = [''p'', ''q'']
   \<and> keyword_total ascii_lower graph_pq [''p'', ''zz'', ''q''] ''drone'' = 2
   \<and> map_of (get_cluster_keywords ascii_lower graph_pq [''p'', ''zz'', ''q'']) ''drone'' = Some 2
   \<and> map_of (get_cluster_keywords ascii_lower graph_pq [''p'', ''zz'', ''q'']) ''Drone'' = None
   \<and> distinct [''a'', ''zz'', ''c'']
   \<and> list_all (normalized ascii_lower) [doc_a, doc_b, doc_c]
   \<and> keyword_total ascii_lower (scenario 2) [''a'', ''zz'', ''c''] ''night''
        = int (card {pid \<in> set [''a'', ''zz'', ''c'']. ''night'' \<in> keywords_at (scenario 2) pid})"
proof -
  have f: "filter (has_key (nodes graph_pq)) [''p'', ''zz'', ''q''] = [''p'', ''q'']"
    by code_simp
  have t: "keyword_total ascii_lower graph_pq [''p'', ''zz'', ''q''] ''drone'' = 2"
    "keyword_total ascii_lower graph_pq [''p'', ''zz'', ''q''] ''Drone'' = 0"
    by code_simp+
  note d = cluster_keywords_skip_absent[of ascii_lower graph_pq "[''p'', ''zz'', ''q'']" "''drone''"]
  note s = cluster_keywords_skip_absent[of ascii_lower graph_pq "[''p'', ''zz'', ''q'']" "''Drone''"]
  have 1: "get_cluster_keywords ascii_lower graph_pq [''p'', ''zz'', ''q'']
     = get_cluster_keywords ascii_lower graph_pq [''p'', ''q'']"
    using d[THEN conjunct1] by (simp only: f)
  have 2: "map_of (get_cluster_keywords ascii_lower graph_pq [''p'', ''zz'', ''q'']) ''drone'' = Some 2"
    using d[THEN conjunct2, THEN conjunct2, THEN conjunct1] by (simp only: t) simp
  have 3: "map_of (get_cluster_keywords ascii_lower graph_pq [''p'', ''zz'', ''q'']) ''Drone'' = None"
    using s[THEN conjunct2, THEN conjunct2, THEN conjunct1] by (simp only: t) simp
  have di: "distinct [''a'', ''zz'', ''c'']" by simp
  have n: "list_all (normalized ascii_lower) [doc_a, doc_b, doc_c]" by code_simp
  have nodes: "nodes (scenario 2) = [(''a'', doc_a), (''b'', doc_b), (''c'', doc_c)]"
    by code_simp
  have pre: "\<forall>pid \<in> set [''a'', ''zz'', ''c'']. \<forall>post.
      map_of (nodes (scenario 2)) pid = Some post \<longrightarrow> normalized ascii_lower post"
    using n by (simp add: nodes)
  note c = cluster_keywords_skip_absent[of ascii_lower "scenario 2" "[''a'', ''zz'', ''c'']" "''night''"]
  from c[THEN conjunct2, THEN conjunct2, THEN conjunct2, THEN conjunct2] di pre
  have 4: "keyword_total ascii_lower (scenario 2) [''a'', ''zz'', ''c''] ''night''
        = int (card {pid \<in> set [''a'', ''zz'', ''c'']. ''night'' \<in> keywords_at (scenario 2) pid})"
    by blast
  show ?thesis
    by (intro conjI 1 2 3 f t(1) di n 4)
qed

text \<open>C10 as stated fails where a keyword or an id comes twice: a single post that
  carries \<^verbatim>\<open>Mil\<close> and \<^verbatim>\<open>mil\<close>, listed once, counts 2 for the one lowercased
  keyword it carries, and a post listed twice counts twice for each of its
  keywords.\<close>

theorem once_per_keyword_counterexample:
  "get_cluster_keywords ascii_lower (snd (add_post ascii_lower (new_graph 2) doc_m)) [''m'']
     = [(''mil'', 2)]
   \<and> filter (has_key (nodes (snd (add_post ascii_lower (new_graph 2) doc_m)))) [''m''] = [''m'']
   \<and> post_keywords ascii_lower doc_m = [''mil'']
   \<and> get_cluster_keywords ascii_lower (scenario 2) [''a'', ''a'']
     = [(''mil'', 2), (''drone'', 2), (''night'', 2)]"
  by code_simp

text \<open>C8, as amended. The graph applies \<^verbatim>\<open>str.lower\<close> to every keyword: in a state
  that calls have led to, the shared keywords of a pair are among the lowercased keywords
  of both posts, and are exactly those when the pair has an edge; the keys of
  \<^verbatim>\<open>get_cluster_keywords\<close> are the lowercased keywords of the listed posts that are
  present. When all inserted documents have normalized keywords, these are the
  keywords as the documents carry them.\<close>

theorem keywords_lowercased:
  assumes run: "run lower (new_graph T) cs = Inr g"
  shows "get_shared_keywords g a b \<subseteq> lower ` keywords_at g a \<inter> lower ` keywords_at g b
     \<and> (get_edge g a b \<noteq> None \<longrightarrow>
           get_shared_keywords g a b = lower ` keywords_at g a \<inter> lower ` keywords_at g b)
     \<and> fst ` set (get_cluster_keywords lower g ids) = lower ` (\<Union>pid \<in> set ids. keywords_at g pid)
     \<and> (list_all (normalized lower) (posts_of cs) \<longrightarrow>
           get_shared_keywords g a b \<subseteq> keywords_at g a \<inter> keywords_at g b
           \<and> fst ` set (get_cluster_keywords lower g ids) = (\<Union>pid \<in> set ids. keywords_at g pid))"
proof -
  have inv: "graph_inv lower g" using run by (rule reachable_inv)
  have 1: "get_shared_keywords g a b \<subseteq> lower ` keywords_at g a \<inter> lower ` keywords_at g b"
    using inv by (rule shared_keywords_lower)
  have 2: "fst ` set (get_cluster_keywords lower g ids) = lower ` (\<Union>pid \<in> set ids. keywords_at g pid)"
    by (rule cluster_keywords_keys)
  have 3: "get_shared_keywords g a b \<subseteq> keywords_at g a \<inter> keywords_at g b
           \<and> fst ` set (get_cluster_keywords lower g ids) = (\<Union>pid \<in> set ids. keywords_at g pid)"
    if norm: "list_all (normalized lower) (posts_of cs)"
  proof -
    have n: "\<forall>p \<in> snd ` set (nodes g). normalized lower p"
      using run _ norm by (rule run_posts) (simp add: new_graph_def)
    have same: "\<And>pid. lower ` keywords_at g pid = keywords_at g pid"
      using n by (rule keywords_at_normalized)
    have "lower ` (\<Union>pid \<in> set ids. keywords_at g pid) = (\<Union>pid \<in> set ids. keywords_at g pid)"
      by (simp only: image_UN same)
    with 1 2 show ?thesis by (simp only: same)
  qed
  have 4: "get_edge g a b \<noteq> None \<longrightarrow>
           get_shared_keywords g a b = lower ` keywords_at g a \<inter> lower ` keywords_at g b"
    using inv by (intro impI shared_keywords_edge)
  from 1 2 3 4 show ?thesis by (intro conjI impI) simp_all
qed

theorem keywords_lowercased_witness:
  "run ascii_lower (new_graph 1) [AddPost doc_p, AddPost doc_q] = Inr graph_pq
   \<and> keywords_at graph_pq ''p'' = {''Drone''}
   \<and> keywords_at graph_pq ''q'' = {''DRONE''}
   \<and> ascii_lower ''Drone'' = ''drone'' \<and> ascii_lower ''DRONE'' = ''drone''
   \<and> get_edge graph_pq ''p'' ''q'' \<noteq> None
   \<and> get_shared_keywords graph_pq ''p'' ''q'' = {''drone''}
   \<and> fst ` set (get_cluster_keywords ascii_lower graph_pq [''p'']) = {''drone''}"
proof -
  have h: "run ascii_lower (new_graph 1) [AddPost doc_p, AddPost doc_q] = Inr graph_pq"
    by (simp add: graph_pq_def)
  have p: "keywords_at graph_pq ''p'' = {''Drone''}" by code_simp
  have q: "keywords_at graph_pq ''q'' = {''DRONE''}" by code_simp
  have l: "ascii_lower ''Drone'' = ''drone''" "ascii_lower ''DRONE'' = ''drone''" by code_simp+
  have e: "get_edge graph_pq ''p'' ''q'' \<noteq> None" by code_simp
  note k = keywords_lowercased[OF h, of "''p''" "''q''" "[''p'']"]
  from k[THEN conjunct2, THEN conjunct1] e
  have "get_shared_keywords graph_pq ''p'' ''q''
      = ascii_lower ` keywords_at graph_pq ''p'' \<inter> ascii_lower ` keywords_at graph_pq ''q''"
    by (rule mp)
  then have 1: "get_shared_keywords graph_pq ''p'' ''q'' = {''drone''}"
    by (simp only: p q l image_insert image_empty Int_absorb)
  from k[THEN conjunct2, THEN conjunct2, THEN conjunct1]
  have 2: "fst ` set (get_cluster_keywords ascii_lower graph_pq [''p'']) = {''drone''}"
    by (simp add: p l)
  show ?thesis
    by (intro conjI h p q l e 1 2)
qed

text \<open>C8 as stated fails for keywords that are not in lower case: two posts that carry
  \<^verbatim>\<open>Drone\<close> and \<^verbatim>\<open>DRONE\<close> share the keyword
  \<^verbatim>\<open>drone\<close>, a string that neither carries, and \<^verbatim>\<open>get_cluster_keywords\<close> has
  that key.\<close>

theorem no_normalization_counterexample:
  "get_shared_keywords graph_pq ''p'' ''q'' = {''drone''}
   \<and> ''drone'' \<notin> set (matched_keywords doc_p) \<union> set (matched_keywords doc_q)
   \<and> map fst (get_cluster_keywords ascii_lower graph_pq [''p'']) = [''drone'']"
  by code_simp

text \<open>C9. In a state that calls have led to, \<^verbatim>\<open>get_most_connected\<close> with a limit
  \<open>N\<close>, a count, so \<open>N \<ge> 0\<close>, returns at most \<open>N\<close> pairs, the first \<open>N\<close>
  of the ranking of all posts. For every limit, each returned pair is a post of the node
  table with the size of its adjacency entry, and the pairs are in the order of
  decreasing degree, posts with equal degree in the order of the node table. The full
  ranking has every post of the node table once. A negative limit is no count: the slice
  \<^verbatim>\<open>items[:limit]\<close> then drops the last \<open>-N\<close> pairs of the ranking.\<close>

theorem most_connected_ranking:
  assumes run: "run lower (new_graph T) cs = Inr g"
  shows "(0 \<le> N \<longrightarrow>
            int (length (get_most_connected g N)) \<le> N
            \<and> get_most_connected g N = take (nat N) (get_most_connected g (node_count g)))
     \<and> (\<forall>x \<in> set (get_most_connected g N).
            map_of (nodes g) (post_id (fst x)) = Some (fst x)
            \<and> snd x = int (length (get_or_empty (adj g) (post_id (fst x)))))
     \<and> sorted_wrt (ranked_before (map fst (nodes g))) (get_most_connected g N)
     \<and> distinct (map (\<lambda>x. post_id (fst x)) (get_most_connected g (node_count g)))
     \<and> set (map (\<lambda>x. post_id (fst x)) (get_most_connected g (node_count g))) = fst ` set (nodes g)
     \<and> (N < 0 \<longrightarrow>
           get_most_connected g N =
             take (length (nodes g) - nat (- N)) (get_most_connected g (node_count g)))"
proof -
  have inv: "graph_inv lower g" using run by (rule reachable_inv)
  let ?all = "sort_desc snd (degree_items g)"
  note r = ranking_inv[OF inv]
  have full: "get_most_connected g (node_count g) = ?all"
    by (simp add: get_most_connected_def slice_to_def node_count_def r(2))
  obtain n where n: "get_most_connected g N = take n ?all"
    using slice_to_take[of N ?all] by (auto simp add: get_most_connected_def)
  have 1: "int (length (get_most_connected g N)) \<le> N
            \<and> get_most_connected g N = take (nat N) (get_most_connected g (node_count g))"
    if "0 \<le> N"
    using that by (simp add: full) (simp add: get_most_connected_def slice_to_def)
  have 2: "\<forall>x \<in> set (get_most_connected g N).
            map_of (nodes g) (post_id (fst x)) = Some (fst x)
            \<and> snd x = int (length (get_or_empty (adj g) (post_id (fst x))))"
  proof
    fix x assume "x \<in> set (get_most_connected g N)"
    then have "x \<in> set ?all" unfolding n by (rule in_set_takeD)
    then have "x \<in> set (degree_items g)" by (simp add: set_sort_desc)
    with degree_items_inv(2)[OF inv]
    show "map_of (nodes g) (post_id (fst x)) = Some (fst x)
            \<and> snd x = int (length (get_or_empty (adj g) (post_id (fst x))))" by blast
  qed
  have 3: "sorted_wrt (ranked_before (map fst (nodes g))) (get_most_connected g N)"
    unfolding n using r(1) by (rule sorted_wrt_take)
  have 4: "distinct (map (\<lambda>x. post_id (fst x)) (get_most_connected g (node_count g)))"
    unfolding full by (rule r(3))
  have 5: "set (map (\<lambda>x. post_id (fst x)) (get_most_connected g (node_count g)))
      = fst ` set (nodes g)"
    unfolding full by (rule r(4))
  from 1 have "0 \<le> N \<longrightarrow>
            int (length (get_most_connected g N)) \<le> N
            \<and> get_most_connected g N = take (nat N) (get_most_connected g (node_count g))"
    by (rule impI)
  moreover have "N < 0 \<longrightarrow>
           get_most_connected g N =
             take (length (nodes g) - nat (- N)) (get_most_connected g (node_count g))"
    by (simp only: full) (simp add: get_most_connected_def slice_to_def r(2))
  ultimately show ?thesis using 2 3 4 5 by (intro conjI)
qed

theorem most_connected_ranking_witness:
  "run ascii_lower (new_graph 2) [AddPosts [doc_a, doc_b, doc_c]] = Inr (scenario 2)
   \<and> (0 :: int) \<le> 2
   \<and> int (length (get_most_connected (scenario 2) 2)) \<le> 2
   \<and> get_most_connected (scenario 2) 2 = [(doc_a, 2), (doc_b, 1)]
   \<and> sorted_wrt (ranked_before (map fst (nodes (scenario 2)))) (get_most_connected (scenario 2) 2)
   \<and> (- 1 :: int) < 0
   \<and> get_most_connected (scenario 2) (node_count (scenario 2)) = [(doc_a, 2), (doc_b, 1), (doc_c, 1)]
   \<and> get_most_connected (scenario 2) (- 1) = [(doc_a, 2), (doc_b, 1)]"
proof -
  have h: "run ascii_lower (new_graph 2) [AddPosts [doc_a, doc_b, doc_c]] = Inr (scenario 2)"
    by (rule run_scenario)
  have v: "get_most_connected (scenario 2) 2 = [(doc_a, 2), (doc_b, 1)]"
    by code_simp
  have a: "get_most_connected (scenario 2) (node_count (scenario 2))
      = [(doc_a, 2), (doc_b, 1), (doc_c, 1)]"
    by code_simp
  have l: "length (nodes (scenario 2)) = 3" by code_simp
  note k = most_connected_ranking[OF h, of 2]
  have 1: "int (length (get_most_connected (scenario 2) 2)) \<le> 2"
    using k[THEN conjunct1] by simp
  have 2: "sorted_wrt (ranked_before (map fst (nodes (scenario 2)))) (get_most_connected (scenario 2) 2)"
    using k[THEN conjunct2, THEN conjunct2, THEN conjunct1] .
  note m = most_connected_ranking[OF h, of "- 1"]
  have 3: "get_most_connected (scenario 2) (- 1) = [(doc_a, 2), (doc_b, 1)]"
    using m[THEN conjunct2, THEN conjunct2, THEN conjunct2, THEN conjunct2, THEN conjunct2]
    by (simp add: a l)
  show ?thesis
    by (intro conjI h v 1 2 a 3) simp_all
qed

text \<open>C4. In a state that calls have led to, the components that
  \<^verbatim>\<open>get_connected_components\<close> returns partition the ids of the node table: no id
  occurs twice in them, they hold exactly the ids of the node table, and none is empty.
  They are in the order of decreasing size, and components of the same size in the order
  in which their earliest inserted members stand in the node table.\<close>

theorem components_partition:
  assumes run: "run lower (new_graph T) cs = Inr g"
  shows "distinct (concat (get_connected_components g))
     \<and> set (concat (get_connected_components g)) = fst ` set (nodes g)
     \<and> [] \<notin> set (get_connected_components g)
     \<and> sorted_wrt (component_before (map fst (nodes g))) (get_connected_components g)"
proof -
  have inv: "graph_inv lower g" using run by (rule reachable_inv)
  let ?ids = "map fst (nodes g)"
  let ?raw = "components_loop (adj g) ?ids {} []"
  have d: "distinct ?ids" using inv by (simp add: graph_inv_def)
  have raw: "distinct (concat ?raw) \<and> set (concat ?raw) = set ?ids \<and> [] \<notin> set ?raw
     \<and> sorted_wrt (\<lambda>c d. first_position ?ids c < first_position ?ids d) ?raw"
    by (rule components_loop_inv[where seen = "[]"])
       (use d inv_targets[OF inv] in simp_all)
  have sorted: "get_connected_components g = sort_desc (\<lambda>c. int (length c)) ?raw"
    by (simp add: get_connected_components_def)
  have 1: "distinct (concat (get_connected_components g))"
    using raw by (simp add: sorted sort_desc_def distinct_concat_sort_key)
  have 2: "set (concat (get_connected_components g)) = fst ` set (nodes g)"
    using raw by (simp add: sorted sort_desc_def)
  have 3: "[] \<notin> set (get_connected_components g)"
    using raw by (simp add: sorted sort_desc_def)
  from raw have "sorted_wrt (\<lambda>c d. first_position ?ids c < first_position ?ids d) ?raw" by simp
  then have "sorted_wrt (\<lambda>c d. int (length d) < int (length c)
        \<or> (int (length c) = int (length d) \<and> first_position ?ids c < first_position ?ids d))
      (sort_desc (\<lambda>c. int (length c)) ?raw)"
    by (rule sort_desc_ordered)
  then have 4: "sorted_wrt (component_before ?ids) (get_connected_components g)"
    by (simp add: sorted component_before_def[abs_def])
  from 1 2 3 4 show ?thesis by (intro conjI)
qed

theorem components_partition_witness:
  "run ascii_lower (new_graph 2) [AddPost doc_x, AddPosts [doc_a, doc_b, doc_c], AddPost doc_y]
     = Inr scenario_between
   \<and> map fst (nodes scenario_between) = [''x'', ''a'', ''b'', ''c'', ''y'']
   \<and> get_connected_components scenario_between = [[''a'', ''b'', ''c''], [''x''], [''y'']]
   \<and> distinct (concat (get_connected_components scenario_between))
   \<and> set (concat (get_connected_components scenario_between)) = fst ` set (nodes scenario_between)
   \<and> sorted_wrt (component_before (map fst (nodes scenario_between)))
        (get_connected_components scenario_between)"
proof -
  have h: "run ascii_lower (new_graph 2) [AddPost doc_x, AddPosts [doc_a, doc_b, doc_c], AddPost doc_y]
     = Inr scenario_between"
    by (simp add: scenario_between_def)
  have n: "map fst (nodes scenario_between) = [''x'', ''a'', ''b'', ''c'', ''y'']"
    by code_simp
  have v: "get_connected_components scenario_between = [[''a'', ''b'', ''c''], [''x''], [''y'']]"
    by code_simp
  note k = components_partition[OF h]
  show ?thesis
    by (intro conjI h n v k[THEN conjunct1] k[THEN conjunct2, THEN conjunct1]
        k[THEN conjunct2, THEN conjunct2, THEN conjunct2])
qed

end
